theory Spec2Isabelle
  imports Main "HOL-Library.Log_Nat" "HOL-Library.Char_ord" "HOL-Library.List_Lexorder"
    "HOL-Library.Multiset"
begin

section \<open>JavaScript strings\<close>

text \<open>
  A JavaScript string is modelled as a \<^typ>\<open>string\<close>: the list of its code units, here
  restricted to the code units 0 to 255.  \<open>===\<close> on two strings is equality of the lists,
  and \<open><\<close>, \<open>>\<close> on two strings compare the code units lexicographically, a proper
  prefix being smaller, which is the order of \<^theory_text>\<open>List_Lexorder\<close> over
  \<^theory_text>\<open>Char_ord\<close>.

  \<open>String.prototype.trim\<close> removes white space and line terminators from both ends.
  In the range 0 to 255 these are TAB, LF, VT, FF, CR, SPACE and NO-BREAK SPACE.
\<close>

definition is_ws :: "char \<Rightarrow> bool" where
  "is_ws c = ((of_char c :: nat) \<in> {9, 10, 11, 12, 13, 32, 160})"

definition trim :: "string \<Rightarrow> string" where
  "trim s = rev (dropWhile is_ws (rev (dropWhile is_ws s)))"

text \<open>\<open>s.split(":")\<close>: the pieces between the separators; a string without
  separator is its own single piece, the empty string included.\<close>

fun split_on :: "char \<Rightarrow> string \<Rightarrow> string list" where
  "split_on c [] = [[]]"
| "split_on c (x # xs) =
     (if x = c then [] # split_on c xs
      else (case split_on c xs of p # ps \<Rightarrow> (x # p) # ps | [] \<Rightarrow> [[x]]))"

text \<open>\<open>s.padStart(n, "0")\<close> for a one-character filler.\<close>

definition padStart :: "nat \<Rightarrow> char \<Rightarrow> string \<Rightarrow> string" where
  "padStart n c s = replicate (n - length s) c @ s"

section \<open>JavaScript numbers\<close>

text \<open>
  A JavaScript number is an IEEE 754 double.  \<open>Fin q\<close> is the finite double whose value is
  the rational \<open>q\<close>; every operation below rounds its exact result to the nearest double,
  ties to the even significand, so that only rationals that are doubles occur under
  \<open>Fin\<close>.  The two zeros are identified: the program never divides by a zero and never
  prints one whose sign could matter (\<open>-0 < 0\<close> and \<open>0 < -0\<close> are both false, and
  \<open>String(-0)\<close> is \<open>"0"\<close>).
\<close>

datatype jsnum = NaN | NegInf | Fin rat | PosInf

definition pow2 :: "int \<Rightarrow> rat" where
  "pow2 e = (if 0 \<le> e then 2 ^ nat e else 1 / 2 ^ nat (- e))"

definition pow10 :: "int \<Rightarrow> rat" where
  "pow10 e = (if 0 \<le> e then 10 ^ nat e else 1 / 10 ^ nat (- e))"

text \<open>\<open>ilog2 q\<close> and \<open>ilog10 q\<close> are the integer parts of the logarithms of a positive
  rational.\<close>

definition ilog2 :: "rat \<Rightarrow> int" where
  "ilog2 q = (let (a, b) = quotient_of q; l = bitlen a - bitlen b
              in if pow2 l \<le> q then l else l - 1)"

definition ilog10 :: "rat \<Rightarrow> int" where
  "ilog10 q = (let (a, b) = quotient_of q;
                   l = int (floorlog 10 (nat a)) - int (floorlog 10 (nat b))
               in if pow10 l \<le> q then l else l - 1)"

definition round_half_even :: "rat \<Rightarrow> int" where
  "round_half_even m = (let f = \<lfloor>m\<rfloor>; r = m - of_int f
     in if r < 1 / 2 then f else if 1 / 2 < r then f + 1
        else if even f then f else f + 1)"

text \<open>Rounding a rational to binary64: 53 significant bits, least exponent \<open>-1022\<close>
  (below it the spacing stays \<open>2 ^ -1074\<close>), overflow to the infinities from
  \<open>2 ^ 1024\<close> on.\<close>

definition round_double :: "rat \<Rightarrow> jsnum" where
  "round_double q = (if q = 0 then Fin 0 else
     let a = \<bar>q\<bar>; e = max (ilog2 a) (- 1022); u = pow2 (e - 52);
         v = of_int (round_half_even (a / u)) * u
     in if pow2 1024 \<le> v then (if q < 0 then NegInf else PosInf)
        else Fin (if q < 0 then - v else v))"

fun isNaN :: "jsnum \<Rightarrow> bool" where
  "isNaN NaN = True"
| "isNaN _ = False"

fun js_neg :: "jsnum \<Rightarrow> jsnum" where
  "js_neg NaN = NaN"
| "js_neg NegInf = PosInf"
| "js_neg PosInf = NegInf"
| "js_neg (Fin q) = Fin (- q)"

text \<open>\<open>x < y\<close> and \<open>x > y\<close> on numbers: false as soon as one side is \<open>NaN\<close>.\<close>

fun js_lt :: "jsnum \<Rightarrow> jsnum \<Rightarrow> bool" where
  "js_lt (Fin a) (Fin b) = (a < b)"
| "js_lt NegInf (Fin b) = True"
| "js_lt NegInf PosInf = True"
| "js_lt (Fin a) PosInf = True"
| "js_lt _ _ = False"

definition js_gt :: "jsnum \<Rightarrow> jsnum \<Rightarrow> bool" where
  "js_gt x y = js_lt y x"

definition js_le :: "jsnum \<Rightarrow> jsnum \<Rightarrow> bool" where
  "js_le x y = (js_lt x y \<or> (x = y \<and> \<not> isNaN x))"

fun js_add :: "jsnum \<Rightarrow> jsnum \<Rightarrow> jsnum" where
  "js_add (Fin a) (Fin b) = round_double (a + b)"
| "js_add NaN _ = NaN"
| "js_add _ NaN = NaN"
| "js_add PosInf NegInf = NaN"
| "js_add NegInf PosInf = NaN"
| "js_add PosInf _ = PosInf"
| "js_add NegInf _ = NegInf"
| "js_add _ PosInf = PosInf"
| "js_add _ NegInf = NegInf"

definition js_sub :: "jsnum \<Rightarrow> jsnum \<Rightarrow> jsnum" where
  "js_sub x y = js_add x (js_neg y)"

definition sign_inf :: "bool \<Rightarrow> jsnum" where
  "sign_inf negative = (if negative then NegInf else PosInf)"

fun js_mul :: "jsnum \<Rightarrow> jsnum \<Rightarrow> jsnum" where
  "js_mul (Fin a) (Fin b) = round_double (a * b)"
| "js_mul NaN _ = NaN"
| "js_mul _ NaN = NaN"
| "js_mul (Fin a) y = (if a = 0 then NaN else sign_inf ((a < 0) \<noteq> (y = NegInf)))"
| "js_mul x (Fin b) = (if b = 0 then NaN else sign_inf ((x = NegInf) \<noteq> (b < 0)))"
| "js_mul x y = sign_inf ((x = NegInf) \<noteq> (y = NegInf))"

text \<open>Division; a zero divisor is read as \<open>+0\<close>.\<close>

fun js_div :: "jsnum \<Rightarrow> jsnum \<Rightarrow> jsnum" where
  "js_div (Fin a) (Fin b) =
     (if b = 0 then (if a = 0 then NaN else sign_inf (a < 0)) else round_double (a / b))"
| "js_div NaN _ = NaN"
| "js_div _ NaN = NaN"
| "js_div (Fin a) _ = Fin 0"
| "js_div x (Fin b) = sign_inf ((x = NegInf) \<noteq> (b < 0))"
| "js_div _ _ = NaN"

subsection \<open>\<open>String(number)\<close>\<close>

definition digit_char :: "nat \<Rightarrow> char" where
  "digit_char d = char_of (48 + d)"

fun decimal :: "nat \<Rightarrow> string" where
  "decimal n = (if n < 10 then [digit_char n]
                else decimal (n div 10) @ [digit_char (n mod 10)])"

declare decimal.simps [simp del]

text \<open>
  \<open>Number::toString\<close> (ECMAScript 6.1.6.1.20) of a positive finite \<open>x\<close> takes integers
  \<open>n\<close>, \<open>k\<close> and \<open>s\<close> with \<open>10 ^ (k - 1) \<le> s < 10 ^ k\<close>, such that
  \<open>s * 10 ^ (n - k)\<close> rounds to \<open>x\<close> and \<open>k\<close> is as small as possible; among several
  \<open>s\<close> the one nearest to \<open>x\<close>.  Seventeen digits always suffice.
\<close>

definition candidates :: "rat \<Rightarrow> nat \<Rightarrow> (int \<times> int) list" where
  "candidates x k = concat (map (\<lambda>n.
      let f = \<lfloor>x / pow10 (n - int k)\<rfloor> in
      filter (\<lambda>(s, n). 10 ^ (k - 1) \<le> s \<and> s < 10 ^ k \<and>
                        round_double (of_int s * pow10 (n - int k)) = Fin x)
        [(f, n), (f + 1, n)]) [ilog10 x + 1, ilog10 x + 2])"

definition closer :: "rat \<Rightarrow> nat \<Rightarrow> (int \<times> int) \<Rightarrow> (int \<times> int) \<Rightarrow> (int \<times> int)" where
  "closer x k c d =
     (let dc = \<bar>of_int (fst c) * pow10 (snd c - int k) - x\<bar>;
          dd = \<bar>of_int (fst d) * pow10 (snd d - int k) - x\<bar>
      in if dc < dd then c else if dd < dc then d else if even (fst c) then c else d)"

fun shortest :: "rat \<Rightarrow> nat list \<Rightarrow> (nat \<times> int \<times> int) option" where
  "shortest x [] = None"
| "shortest x (k # ks) = (case candidates x k of [] \<Rightarrow> shortest x ks
     | c # cs \<Rightarrow> (let (s, n) = foldl (closer x k) c cs in Some (k, s, n)))"

definition format_digits :: "nat \<Rightarrow> int \<Rightarrow> int \<Rightarrow> string" where
  "format_digits k s n = (let ds = decimal (nat s) in
     if - 5 \<le> n \<and> n \<le> 21 then
       (if int k \<le> n then ds @ replicate (nat (n - int k)) (CHR ''0'')
        else if 0 < n then take (nat n) ds @ ''.'' @ drop (nat n) ds
        else ''0.'' @ replicate (nat (- n)) (CHR ''0'') @ ds)
     else
       (let e = n - 1; ex = (if e < 0 then ''-'' else ''+'') @ decimal (nat \<bar>e\<bar>)
        in if k = 1 then ds @ ''e'' @ ex
           else take 1 ds @ ''.'' @ drop 1 ds @ ''e'' @ ex))"

definition is_int :: "rat \<Rightarrow> bool" where
  "is_int q = (of_int \<lfloor>q\<rfloor> = q)"

text \<open>An integer up to \<open>2 ^ 53\<close> prints as its decimal digits; the search gives the same
  there and decides every other double (no digits are found only for a rational that is
  not a double).\<close>

definition positive_to_string :: "rat \<Rightarrow> string" where
  "positive_to_string x =
     (if is_int x \<and> x \<le> 2 ^ 53 then decimal (nat \<lfloor>x\<rfloor>)
      else (case shortest x [1 ..< 18] of
              Some (k, s, n) \<Rightarrow> format_digits k s n
            | None \<Rightarrow> []))"

fun js_String :: "jsnum \<Rightarrow> string" where
  "js_String NaN = ''NaN''"
| "js_String PosInf = ''Infinity''"
| "js_String NegInf = ''-Infinity''"
| "js_String (Fin q) =
     (if q = 0 then ''0''
      else if q < 0 then ''-'' @ positive_to_string (- q)
      else positive_to_string q)"

subsection \<open>\<open>Number(string)\<close>\<close>

text \<open>
  \<open>StringToNumber\<close> (ECMAScript 7.1.4.1.1): white space is trimmed, the empty string is
  \<open>0\<close>, and the rest must be, as a whole, a binary, octal or hexadecimal integer literal
  without sign, or an optionally signed \<open>Infinity\<close> or decimal literal with optional
  fraction and exponent; anything else is \<open>NaN\<close>.
\<close>

definition is_digit :: "char \<Rightarrow> bool" where
  "is_digit c = (48 \<le> (of_char c :: nat) \<and> (of_char c :: nat) \<le> 57)"

text \<open>The value of a digit in a radix up to 16, if it is one.\<close>

definition digit_value :: "nat \<Rightarrow> char \<Rightarrow> nat option" where
  "digit_value radix c = (let n = (of_char c :: nat);
       v = (if 48 \<le> n \<and> n \<le> 57 then Some (n - 48)
            else if 97 \<le> n \<and> n \<le> 102 then Some (n - 87)
            else if 65 \<le> n \<and> n \<le> 70 then Some (n - 55)
            else None)
     in case v of None \<Rightarrow> None | Some d \<Rightarrow> if d < radix then Some d else None)"

fun digits_value :: "nat \<Rightarrow> string \<Rightarrow> nat \<Rightarrow> nat option" where
  "digits_value radix [] acc = Some acc"
| "digits_value radix (c # cs) acc =
     (case digit_value radix c of None \<Rightarrow> None
      | Some d \<Rightarrow> digits_value radix cs (radix * acc + d))"

text \<open>One or more digits of the radix.\<close>

definition numeral_value :: "nat \<Rightarrow> string \<Rightarrow> nat option" where
  "numeral_value radix ds = (if ds = [] then None else digits_value radix ds 0)"

definition exponent_part :: "string \<Rightarrow> int option" where
  "exponent_part s = (case s of
       [] \<Rightarrow> Some 0
     | c # r \<Rightarrow>
         if c = CHR ''e'' \<or> c = CHR ''E'' then
           (case r of
              [] \<Rightarrow> None
            | d # ds \<Rightarrow>
                if d = CHR ''+'' then map_option int (numeral_value 10 ds)
                else if d = CHR ''-'' then map_option (\<lambda>n. - int n) (numeral_value 10 ds)
                else map_option int (numeral_value 10 r))
         else None)"

definition unsigned_decimal :: "string \<Rightarrow> jsnum" where
  "unsigned_decimal s =
     (if s = ''Infinity'' then PosInf
      else
        let ip = takeWhile is_digit s; r1 = dropWhile is_digit s in
        case r1 of
          c # r2 \<Rightarrow>
            if c = CHR ''.'' then
              (let fp = takeWhile is_digit r2; r3 = dropWhile is_digit r2 in
               if ip = [] \<and> fp = [] then NaN
               else (case (digits_value 10 (ip @ fp) 0, exponent_part r3) of
                       (Some m, Some e) \<Rightarrow>
                         round_double (of_nat m * pow10 (e - int (length fp)))
                     | _ \<Rightarrow> NaN))
            else if ip = [] then NaN
            else (case (digits_value 10 ip 0, exponent_part r1) of
                    (Some m, Some e) \<Rightarrow> round_double (of_nat m * pow10 e)
                  | _ \<Rightarrow> NaN)
        | [] \<Rightarrow>
            (case numeral_value 10 ip of
               Some m \<Rightarrow> round_double (of_nat m)
             | None \<Rightarrow> NaN))"

definition radix_literal :: "nat \<Rightarrow> string \<Rightarrow> jsnum" where
  "radix_literal radix ds =
     (case numeral_value radix ds of Some m \<Rightarrow> round_double (of_nat m) | None \<Rightarrow> NaN)"

definition js_Number :: "string \<Rightarrow> jsnum" where
  "js_Number str = (let t = trim str in
     case t of
       [] \<Rightarrow> Fin 0
     | c # r \<Rightarrow>
         if c = CHR ''0'' \<and> r \<noteq> [] \<and> hd r \<in> {CHR ''x'', CHR ''X''} then radix_literal 16 (tl r)
         else if c = CHR ''0'' \<and> r \<noteq> [] \<and> hd r \<in> {CHR ''o'', CHR ''O''} then radix_literal 8 (tl r)
         else if c = CHR ''0'' \<and> r \<noteq> [] \<and> hd r \<in> {CHR ''b'', CHR ''B''} then radix_literal 2 (tl r)
         else if c = CHR ''+'' then unsigned_decimal r
         else if c = CHR ''-'' then js_neg (unsigned_decimal r)
         else unsigned_decimal t)"

section \<open>\<open>computeShiftDuration\<close> (business layer)\<close>

text \<open>The arguments are strings, so \<open>String(x || "")\<close> is \<open>x\<close> itself: the empty string is
  the only falsy string, and it is replaced by the empty string.\<close>

definition computeShiftDuration :: "string \<Rightarrow> string \<Rightarrow> jsnum" where
  "computeShiftDuration startTime endTime =
     (let s = trim startTime; e = trim endTime;
          sParts = split_on (CHR '':'') s; eParts = split_on (CHR '':'') e
      in if length sParts \<noteq> 2 \<or> length eParts \<noteq> 2 then Fin 0
         else
           let sh = js_Number (sParts ! 0); sm = js_Number (sParts ! 1);
               eh = js_Number (eParts ! 0); em = js_Number (eParts ! 1)
           in if isNaN sh \<or> isNaN sm \<or> isNaN eh \<or> isNaN em then Fin 0
              else if js_lt sh (Fin 0) \<or> js_gt sh (Fin 23) \<or> js_lt eh (Fin 0) \<or> js_gt eh (Fin 23) \<or>
                      js_lt sm (Fin 0) \<or> js_gt sm (Fin 59) \<or> js_lt em (Fin 0) \<or> js_gt em (Fin 59)
                   then Fin 0
              else
                let startMinutes = js_add (js_mul sh (Fin 60)) sm;
                    endMinutes = js_add (js_mul eh (Fin 60)) em;
                    endMinutes = (if js_lt endMinutes startMinutes
                                  then js_add endMinutes (js_mul (Fin 24) (Fin 60))
                                  else endMinutes);
                    diffMinutes = js_sub endMinutes startMinutes
                in js_div diffMinutes (Fin 60))"

section \<open>Data model\<close>

text \<open>
  The records stored in \<open>employees.json\<close>, \<open>shifts.json\<close> and \<open>assignments.json\<close>,
  with the field types of the JSDoc annotations: every element of a collection is an
  object whose fields are strings.  The two fields of an assignment carry the prefix
  \<open>asg_\<close>, their names being taken by the other two records.
\<close>

record employee =
  employeeId :: string
  name :: string
  phone :: string

record shift =
  shiftId :: string
  date :: string
  startTime :: string
  endTime :: string

record assignment =
  asg_employeeId :: string
  asg_shiftId :: string

text \<open>
  What \<open>fs.readFile\<close> followed by \<open>JSON.parse\<close> finds in a collection file: the read is
  rejected (the file is missing or cannot be read), the text is not JSON, the JSON value is
  not an array, or it is an array of records.
\<close>

datatype 'a collection = Unreadable | Malformed | Not_Array | Json_Array "'a list"

text \<open>A JSON value, for \<open>config.json\<close>; a later duplicate key of an object wins.
  \<open>JNumber q\<close> is the number written in the text; \<open>JSON.parse\<close> rounds it to a double.\<close>

datatype json =
    JNull | JBool bool | JNumber rat | JString string | JArray "json list"
  | JObject "(string \<times> json) list"

datatype config = Config_Unreadable | Config_Malformed | Config_Json json

text \<open>The four files of the record store.\<close>

record store =
  EMPLOYEES_FILE :: "employee collection"
  SHIFTS_FILE :: "shift collection"
  ASSIGNMENTS_FILE :: "assignment collection"
  CONFIG_FILE :: config

section \<open>Persistence layer\<close>

text \<open>
  The asynchronous functions run one after the other (nothing else touches the files
  between two \<open>await\<close>s), so each is a function of the store: a reader returns its value, a
  writer returns the store it leaves.  \<open>fs.writeFile\<close> is taken to succeed; the text it
  writes is \<open>JSON.stringify\<close> of an array of records, which parses back to that array.

  \<open>readJsonArray\<close>: the array when there is one; \<open>[]\<close> from the \<open>catch\<close> (rejected read,
  \<open>JSON.parse\<close> throwing) and for a value that is not an array.
\<close>

fun readJsonArray :: "'a collection \<Rightarrow> 'a list" where
  "readJsonArray (Json_Array data) = data"
| "readJsonArray Not_Array = []"
| "readJsonArray Unreadable = []"
| "readJsonArray Malformed = []"

definition writeJsonArray :: "'a list \<Rightarrow> 'a collection" where
  "writeJsonArray data = Json_Array data"

definition getAllEmployees :: "store \<Rightarrow> employee list" where
  "getAllEmployees st = readJsonArray (EMPLOYEES_FILE st)"

text \<open>The loops of the three \<open>find\<close> functions return the first element that matches,
  \<open>undefined\<close> (here \<open>None\<close>) when none does.\<close>

definition findEmployee :: "store \<Rightarrow> string \<Rightarrow> employee option" where
  "findEmployee st eid =
     (let employees = readJsonArray (EMPLOYEES_FILE st)
      in find (\<lambda>e. employeeId e = eid) employees)"

definition addEmployee :: "employee \<Rightarrow> store \<Rightarrow> store" where
  "addEmployee emp st =
     (let employees = readJsonArray (EMPLOYEES_FILE st)
      in st\<lparr>EMPLOYEES_FILE := writeJsonArray (employees @ [emp])\<rparr>)"

definition getAllShifts :: "store \<Rightarrow> shift list" where
  "getAllShifts st = readJsonArray (SHIFTS_FILE st)"

definition findShift :: "store \<Rightarrow> string \<Rightarrow> shift option" where
  "findShift st sid =
     (let shifts = readJsonArray (SHIFTS_FILE st)
      in find (\<lambda>s. shiftId s = sid) shifts)"

definition getAllAssignments :: "store \<Rightarrow> assignment list" where
  "getAllAssignments st = readJsonArray (ASSIGNMENTS_FILE st)"

definition addAssignment :: "assignment \<Rightarrow> store \<Rightarrow> store" where
  "addAssignment a st =
     (let assignments = readJsonArray (ASSIGNMENTS_FILE st)
      in st\<lparr>ASSIGNMENTS_FILE := writeJsonArray (assignments @ [a])\<rparr>)"

definition findAssignment :: "store \<Rightarrow> string \<Rightarrow> string \<Rightarrow> assignment option" where
  "findAssignment st eid sid =
     (let assignments = readJsonArray (ASSIGNMENTS_FILE st)
      in find (\<lambda>a. asg_employeeId a = eid \<and> asg_shiftId a = sid) assignments)"

definition getAssignmentsByEmployee :: "store \<Rightarrow> string \<Rightarrow> assignment list" where
  "getAssignmentsByEmployee st eid =
     (let assignments = readJsonArray (ASSIGNMENTS_FILE st)
      in filter (\<lambda>a. asg_employeeId a = eid) assignments)"

subsection \<open>\<open>getMaxDailyHours\<close>\<close>

text \<open>
  \<open>Number(data.maxDailyHours)\<close> on the parsed \<open>config.json\<close>.  Reading a property of
  \<open>null\<close> throws, which the \<open>catch\<close> turns into \<open>9\<close>; every other value that is not an
  object has no such property, and \<open>Number(undefined)\<close> is \<open>NaN\<close>.  \<open>Number\<close> of an array
  or an object goes through its string.
\<close>

fun join_comma :: "string list \<Rightarrow> string" where
  "join_comma [] = []"
| "join_comma [s] = s"
| "join_comma (s # t # ss) = s @ '','' @ join_comma (t # ss)"

fun json_String :: "json \<Rightarrow> string" where
  "json_String JNull = ''null''"
| "json_String (JBool b) = (if b then ''true'' else ''false'')"
| "json_String (JNumber q) = js_String (round_double q)"
| "json_String (JString s) = s"
| "json_String (JObject kvs) = ''[object Object]''"
| "json_String (JArray vs) =
     join_comma (map (\<lambda>v. case v of JNull \<Rightarrow> [] | _ \<Rightarrow> json_String v) vs)"

fun json_Number :: "json \<Rightarrow> jsnum" where
  "json_Number JNull = Fin 0"
| "json_Number (JBool b) = Fin (if b then 1 else 0)"
| "json_Number (JNumber q) = round_double q"
| "json_Number (JString s) = js_Number s"
| "json_Number v = js_Number (json_String v)"

definition getMaxDailyHours :: "store \<Rightarrow> jsnum" where
  "getMaxDailyHours st =
     (case CONFIG_FILE st of
        Config_Unreadable \<Rightarrow> Fin 9
      | Config_Malformed \<Rightarrow> Fin 9
      | Config_Json JNull \<Rightarrow> Fin 9
      | Config_Json data \<Rightarrow>
          (let hours = (case data of
                          JObject kvs \<Rightarrow>
                            (case map_of (rev kvs) ''maxDailyHours'' of
                               Some v \<Rightarrow> json_Number v
                             | None \<Rightarrow> NaN)
                        | _ \<Rightarrow> NaN)
           in if (isNaN hours \<or> hours = Fin 0) \<or> js_le hours (Fin 0) then Fin 9
              else hours))"

section \<open>Business layer\<close>

text \<open>Here too the arguments are strings, and \<open>String(x || "")\<close> is \<open>x\<close>.\<close>

subsection \<open>\<open>getNextEmployeeId\<close>\<close>

text \<open>The loop over the employees, \<open>maxNumber\<close> being its variable; \<open>substring(1)\<close> drops
  the first code unit.\<close>

fun maxNumber_loop :: "employee list \<Rightarrow> jsnum \<Rightarrow> jsnum" where
  "maxNumber_loop [] maxNumber = maxNumber"
| "maxNumber_loop (e # es) maxNumber =
     (let id = employeeId e; number = js_Number (drop 1 id)
      in maxNumber_loop es (if js_gt number maxNumber then number else maxNumber))"

definition getNextEmployeeId :: "employee list \<Rightarrow> string" where
  "getNextEmployeeId employees =
     (let maxNumber = maxNumber_loop employees (Fin 0)
      in ''E'' @ padStart 3 (CHR ''0'') (js_String (js_add maxNumber (Fin 1))))"

subsection \<open>Results\<close>

text \<open>\<open>{ok, message}\<close>, and \<open>{ok, message?, rows?}\<close> for the schedule (an absent property
  is \<open>None\<close>).\<close>

record result =
  ok :: bool
  message :: string

record schedule_result =
  sched_ok :: bool
  sched_message :: "string option"
  sched_rows :: "shift list option"

subsection \<open>\<open>getEmployees\<close>, \<open>addNewEmployee\<close>, \<open>assignEmployeeToShift\<close>\<close>

definition getEmployees :: "store \<Rightarrow> employee list" where
  "getEmployees st = getAllEmployees st"

definition addNewEmployee :: "string \<Rightarrow> string \<Rightarrow> store \<Rightarrow> result \<times> store" where
  "addNewEmployee name_arg phone_arg st =
     (let n = trim name_arg; p = trim phone_arg
      in if n = [] \<or> p = [] then (\<lparr>ok = False, message = ''Invalid input.''\<rparr>, st)
         else
           let employees = getAllEmployees st;
               emp = \<lparr>employeeId = getNextEmployeeId employees, name = n, phone = p\<rparr>;
               st = addEmployee emp st
           in (\<lparr>ok = True, message = ''Employee added...''\<rparr>, st))"

definition assignEmployeeToShift :: "string \<Rightarrow> string \<Rightarrow> store \<Rightarrow> result \<times> store" where
  "assignEmployeeToShift employeeId_arg shiftId_arg st =
     (let empId = trim employeeId_arg; shId = trim shiftId_arg
      in if empId = [] \<or> shId = [] then (\<lparr>ok = False, message = ''Invalid input.''\<rparr>, st)
         else if findEmployee st empId = None
           then (\<lparr>ok = False, message = ''Employee does not exist''\<rparr>, st)
         else if findShift st shId = None
           then (\<lparr>ok = False, message = ''Shift does not exist''\<rparr>, st)
         else if findAssignment st empId shId \<noteq> None
           then (\<lparr>ok = False, message = ''Employee already assigned to shift''\<rparr>, st)
         else
           let st = addAssignment \<lparr>asg_employeeId = empId, asg_shiftId = shId\<rparr> st
           in (\<lparr>ok = True, message = ''Shift Recorded''\<rparr>, st))"

subsection \<open>\<open>sortShifts\<close>\<close>

text \<open>
  The array is sorted in place by two nested loops.  \<open>swap_step\<close> is the body of the inner
  loop at index \<open>j\<close>, \<open>inner_loop\<close> the inner loop over \<open>j = 0, ..., length - 2\<close>, and the
  outer loop runs it \<open>length\<close> times.  The key compared is the string
  \<open>rows[j].date + rows[j].startTime\<close>.
\<close>

definition shift_key :: "shift \<Rightarrow> string" where
  "shift_key r = date r @ startTime r"

definition swap_step :: "shift list \<Rightarrow> nat \<Rightarrow> shift list" where
  "swap_step rows j =
     (if shift_key (rows ! j) > shift_key (rows ! (j + 1))
      then (let temp = rows ! j in (rows[j := rows ! (j + 1)])[j + 1 := temp])
      else rows)"

definition inner_loop :: "shift list \<Rightarrow> shift list" where
  "inner_loop rows = foldl swap_step rows [0 ..< length rows - 1]"

definition sortShifts :: "shift list \<Rightarrow> shift list" where
  "sortShifts rows = foldl (\<lambda>rows i. inner_loop rows) rows [0 ..< length rows]"

subsection \<open>\<open>getEmployeeSchedule\<close>\<close>

text \<open>The loop over the assignments of the employee, pushing each shift found.\<close>

fun rows_loop :: "store \<Rightarrow> assignment list \<Rightarrow> shift list \<Rightarrow> shift list" where
  "rows_loop st [] rows = rows"
| "rows_loop st (a # as) rows =
     (case findShift st (asg_shiftId a) of
        Some sh \<Rightarrow> rows_loop st as (rows @ [sh])
      | None \<Rightarrow> rows_loop st as rows)"

definition getEmployeeSchedule :: "string \<Rightarrow> store \<Rightarrow> schedule_result \<times> store" where
  "getEmployeeSchedule employeeId_arg st =
     (let empId = trim employeeId_arg
      in if findEmployee st empId = None
         then (\<lparr>sched_ok = False, sched_message = Some [], sched_rows = None\<rparr>, st)
         else
           let assignments = getAssignmentsByEmployee st empId;
               rows = rows_loop st assignments [];
               rows = sortShifts rows
           in (\<lparr>sched_ok = True, sched_message = None, sched_rows = Some rows\<rparr>, st))"

section \<open>The first version of the program\<close>

text \<open>
  \<open>assignment1.js\<close> holds the program before it was split into layers.  Its
  \<open>readJsonArray\<close>, \<open>getNextEmployeeId\<close> and \<open>sortShifts\<close> are those above.  Its
  \<open>assignEmployeeToShift\<close> reads the two ids from the prompt, trims them, and prints a line
  where the later version returns a message; it has no check for an empty id.  Here the two
  arguments are the answers typed, and the result is the line printed with the store left.
\<close>

definition employeeExists :: "employee list \<Rightarrow> string \<Rightarrow> bool" where
  "employeeExists employees eid = list_ex (\<lambda>e. employeeId e = eid) employees"

definition shiftExists :: "shift list \<Rightarrow> string \<Rightarrow> bool" where
  "shiftExists shifts sid = list_ex (\<lambda>s. shiftId s = sid) shifts"

definition isAlreadyAssigned :: "assignment list \<Rightarrow> string \<Rightarrow> string \<Rightarrow> bool" where
  "isAlreadyAssigned assignments eid sid =
     list_ex (\<lambda>a. asg_employeeId a = eid \<and> asg_shiftId a = sid) assignments"

definition assignEmployeeToShift_cli :: "string \<Rightarrow> string \<Rightarrow> store \<Rightarrow> string \<times> store" where
  "assignEmployeeToShift_cli answer1 answer2 st =
     (let eid = trim answer1; sid = trim answer2;
          employees = readJsonArray (EMPLOYEES_FILE st);
          shifts = readJsonArray (SHIFTS_FILE st);
          assignments = readJsonArray (ASSIGNMENTS_FILE st)
      in if \<not> employeeExists employees eid then (''Employee does not exist'', st)
         else if \<not> shiftExists shifts sid then (''Shift does not exist'', st)
         else if isAlreadyAssigned assignments eid sid
           then (''Employee already assigned to shift'', st)
         else (''Shift Recorded'',
               st\<lparr>ASSIGNMENTS_FILE :=
                    writeJsonArray (assignments @ [\<lparr>asg_employeeId = eid, asg_shiftId = sid\<rparr>])\<rparr>))"

section \<open>Definitions used in the statements\<close>

text \<open>The three collections of a store, as the files hold them.\<close>

definition collections ::
  "store \<Rightarrow> employee collection \<times> shift collection \<times> assignment collection" where
  "collections st = (EMPLOYEES_FILE st, SHIFTS_FILE st, ASSIGNMENTS_FILE st)"

text \<open>Two stores in which every collection reads as the same list.\<close>

definition same_contents :: "store \<Rightarrow> store \<Rightarrow> bool" where
  "same_contents st st' =
     (getAllEmployees st = getAllEmployees st' \<and> getAllShifts st = getAllShifts st' \<and>
      getAllAssignments st = getAllAssignments st')"

text \<open>A small store: one employee, one shift, no assignments file yet.\<close>

definition store0 :: store where
  "store0 =
     \<lparr>EMPLOYEES_FILE = Json_Array [\<lparr>employeeId = ''E001'', name = ''Ann'', phone = ''555''\<rparr>],
      SHIFTS_FILE = Json_Array [\<lparr>shiftId = ''S1'', date = ''2024-01-02'',
                                startTime = ''08:00'', endTime = ''12:00''\<rparr>],
      ASSIGNMENTS_FILE = Unreadable,
      CONFIG_FILE = Config_Unreadable\<rparr>"

text \<open>A store where no collection file is usable, and the store of three empty arrays.\<close>

definition store_bad :: store where
  "store_bad = \<lparr>EMPLOYEES_FILE = Unreadable, SHIFTS_FILE = Malformed,
                 ASSIGNMENTS_FILE = Not_Array, CONFIG_FILE = Config_Malformed\<rparr>"

definition store_empty :: store where
  "store_empty = \<lparr>EMPLOYEES_FILE = Json_Array [], SHIFTS_FILE = Json_Array [],
                   ASSIGNMENTS_FILE = Json_Array [], CONFIG_FILE = Config_Malformed\<rparr>"

text \<open>One run of the inner loop of \<open>sortShifts\<close>, as a recursion over the list (used in
  the proofs only).\<close>

fun bubble_pass :: "shift list \<Rightarrow> shift list" where
  "bubble_pass (x # y # xs) =
     (if shift_key x > shift_key y then y # bubble_pass (x # xs) else x # bubble_pass (y # xs))"
| "bubble_pass [x] = [x]"
| "bubble_pass [] = []"

text \<open>The shifts of the assignments of an employee, in the order of the assignments; an
  assignment whose shift id is the id of no stored shift contributes nothing.\<close>

definition resolved_shifts :: "store \<Rightarrow> string \<Rightarrow> shift list" where
  "resolved_shifts st eid =
     List.map_filter (\<lambda>a. findShift st (asg_shiftId a))
       (filter (\<lambda>a. asg_employeeId a = eid) (getAllAssignments st))"

text \<open>Three shifts, and a store in which one employee has all three, and a fourth
  assignment to a shift that is not stored.\<close>

definition shift_jan2_0800 :: shift where
  "shift_jan2_0800 = \<lparr>shiftId = ''S1'', date = ''2024-01-02'', startTime = ''08:00'', endTime = ''12:00''\<rparr>"

definition shift_jan1_0900 :: shift where
  "shift_jan1_0900 = \<lparr>shiftId = ''S2'', date = ''2024-01-01'', startTime = ''09:00'', endTime = ''13:00''\<rparr>"

definition shift_jan1_0800 :: shift where
  "shift_jan1_0800 = \<lparr>shiftId = ''S3'', date = ''2024-01-01'', startTime = ''08:00'', endTime = ''09:00''\<rparr>"

definition store_schedule :: store where
  "store_schedule =
     \<lparr>EMPLOYEES_FILE = Json_Array [\<lparr>employeeId = ''E001'', name = ''Ann'', phone = ''555''\<rparr>],
      SHIFTS_FILE = Json_Array [shift_jan2_0800, shift_jan1_0900, shift_jan1_0800],
      ASSIGNMENTS_FILE = Json_Array
        [\<lparr>asg_employeeId = ''E001'', asg_shiftId = ''S1''\<rparr>,
         \<lparr>asg_employeeId = ''E001'', asg_shiftId = ''S9''\<rparr>,
         \<lparr>asg_employeeId = ''E001'', asg_shiftId = ''S2''\<rparr>,
         \<lparr>asg_employeeId = ''E001'', asg_shiftId = ''S3''\<rparr>],
      CONFIG_FILE = Config_Unreadable\<rparr>"

text \<open>At most one assignment for each pair of an employee id and a shift id.\<close>

definition unique_pairs :: "store \<Rightarrow> bool" where
  "unique_pairs st =
     distinct (map (\<lambda>a. (asg_employeeId a, asg_shiftId a)) (getAllAssignments st))"

text \<open>The assignments of a given pair in a store.\<close>

definition assignments_of :: "store \<Rightarrow> string \<Rightarrow> string \<Rightarrow> assignment list" where
  "assignments_of st eid sid =
     filter (\<lambda>a. asg_employeeId a = eid \<and> asg_shiftId a = sid) (getAllAssignments st)"

text \<open>The number that \<open>getNextEmployeeId\<close> reads off an employee id.\<close>

definition suffix_number :: "string \<Rightarrow> jsnum" where
  "suffix_number eid = js_Number (drop 1 eid)"

text \<open>A suffix that is not a number, or is not positive, or is a whole number below
  \<open>2 ^ 53\<close>.\<close>

definition safe_suffix :: "jsnum \<Rightarrow> bool" where
  "safe_suffix v =
     (case v of NaN \<Rightarrow> True | NegInf \<Rightarrow> True | PosInf \<Rightarrow> False
      | Fin q \<Rightarrow> q \<le> 0 \<or> (is_int q \<and> q < 2 ^ 53))"

text \<open>What such a suffix counts for in the maximum: its value when it is a positive
  number, and \<open>0\<close> otherwise.\<close>

definition counted :: "jsnum \<Rightarrow> nat" where
  "counted v = (case v of Fin q \<Rightarrow> nat \<lfloor>q\<rfloor> | _ \<Rightarrow> 0)"

definition max_suffix :: "employee list \<Rightarrow> nat" where
  "max_suffix L = foldr (\<lambda>e m. max (counted (suffix_number (employeeId e))) m) L 0"

text \<open>A suffix that is not a number, or is a number below \<open>2 ^ 53\<close> (so not the infinite
  one).\<close>

definition below_2_53 :: "jsnum \<Rightarrow> bool" where
  "below_2_53 v =
     (case v of NaN \<Rightarrow> True | NegInf \<Rightarrow> True | PosInf \<Rightarrow> False | Fin q \<Rightarrow> q < 2 ^ 53)"

text \<open>One employee whose id ends in the fraction 0.5.\<close>

definition staff_half :: "employee list" where
  "staff_half = [\<lparr>employeeId = ''E0.5'', name = ''Ann'', phone = ''555''\<rparr>]"

text \<open>Employees whose ids end in 7, in no number, in -5, and in 1234.\<close>

definition staff :: "employee list" where
  "staff = [\<lparr>employeeId = ''E007'', name = ''Ann'', phone = ''555''\<rparr>,
            \<lparr>employeeId = ''Ebad'', name = ''Bob'', phone = ''556''\<rparr>,
            \<lparr>employeeId = ''E-5'', name = ''Cy'', phone = ''557''\<rparr>,
            \<lparr>employeeId = ''E1234'', name = ''Di'', phone = ''558''\<rparr>]"

text \<open>
  A time of day as \<open>computeShiftDuration\<close> accepts it: the string, trimmed and split at
  the colons, has exactly two components, \<open>Number\<close> yields a number for each (so not
  \<open>NaN\<close>), the first from 0 to 23 and the second from 0 to 59.  The result is the pair of
  the two numbers.
\<close>

definition hhmm :: "string \<Rightarrow> (rat \<times> rat) option" where
  "hhmm str =
     (case split_on (CHR '':'') (trim str) of
        [h, m] \<Rightarrow>
          (case (js_Number h, js_Number m) of
             (Fin hh, Fin mm) \<Rightarrow>
               if 0 \<le> hh \<and> hh \<le> 23 \<and> 0 \<le> mm \<and> mm \<le> 59 then Some (hh, mm) else None
           | _ \<Rightarrow> None)
      | _ \<Rightarrow> None)"

text \<open>The minutes since midnight, in double arithmetic.\<close>

definition minutes :: "rat \<times> rat \<Rightarrow> jsnum" where
  "minutes t = js_add (js_mul (Fin (fst t)) (Fin 60)) (Fin (snd t))"

section \<open>Basic facts\<close>

lemma find_None_Bex: "(find P xs = None) = (\<not> (\<exists>x\<in>set xs. P x))"
  by (auto simp: find_None_iff)

lemma trim_examples:
  "trim '' E001 '' = ''E001''" "trim ''E001'' = ''E001''" "trim ''S1'' = ''S1''"
  "trim ''  '' = []" "trim [] = []" "trim ''Bob '' = ''Bob''" "trim ''777'' = ''777''"
  by (simp_all add: trim_def is_ws_def)

lemma rows_loop_map_filter:
  "rows_loop st as rows = rows @ List.map_filter (\<lambda>a. findShift st (asg_shiftId a)) as"
  by (induction as arbitrary: rows) (simp_all add: List.map_filter_simps split: option.splits)

section \<open>Shift assignment\<close>

text \<open>
  Claim C1.  \<open>assignEmployeeToShift\<close> stops at the first check that fails, in this
  order: an empty trimmed id gives \<open>Invalid input.\<close>; no employee with the trimmed
  employee id gives \<open>Employee does not exist\<close>, whatever the shift; no shift with the
  trimmed shift id gives \<open>Shift does not exist\<close>; an assignment of the same pair gives
  \<open>Employee already assigned to shift\<close>; in these four cases the store is left as it was.
  Otherwise exactly one assignment, of the trimmed pair, is appended and the result is
  \<open>Shift Recorded\<close>.
\<close>

theorem assignEmployeeToShift_validation_order:
  "assignEmployeeToShift e s st =
     (if trim e = [] \<or> trim s = []
        then (\<lparr>ok = False, message = ''Invalid input.''\<rparr>, st)
      else if \<not> (\<exists>x \<in> set (getAllEmployees st). employeeId x = trim e)
        then (\<lparr>ok = False, message = ''Employee does not exist''\<rparr>, st)
      else if \<not> (\<exists>x \<in> set (getAllShifts st). shiftId x = trim s)
        then (\<lparr>ok = False, message = ''Shift does not exist''\<rparr>, st)
      else if (\<exists>a \<in> set (getAllAssignments st).
                 asg_employeeId a = trim e \<and> asg_shiftId a = trim s)
        then (\<lparr>ok = False, message = ''Employee already assigned to shift''\<rparr>, st)
      else (\<lparr>ok = True, message = ''Shift Recorded''\<rparr>,
            st\<lparr>ASSIGNMENTS_FILE :=
                 Json_Array (getAllAssignments st @
                   [\<lparr>asg_employeeId = trim e, asg_shiftId = trim s\<rparr>])\<rparr>))"
  by (simp add: assignEmployeeToShift_def findEmployee_def findShift_def findAssignment_def
      addAssignment_def writeJsonArray_def getAllEmployees_def getAllShifts_def
      getAllAssignments_def Let_def find_None_Bex)

theorem assignEmployeeToShift_validation_order_witness:
  "assignEmployeeToShift '' E001 '' ''S1'' store0 =
     (\<lparr>ok = True, message = ''Shift Recorded''\<rparr>,
      store0\<lparr>ASSIGNMENTS_FILE :=
        Json_Array [\<lparr>asg_employeeId = ''E001'', asg_shiftId = ''S1''\<rparr>]\<rparr>)"
  using assignEmployeeToShift_validation_order [of "'' E001 ''" "''S1''" store0]
  by (simp add: trim_examples store0_def getAllEmployees_def getAllShifts_def
      getAllAssignments_def)

text \<open>
  The first version of the program agrees with this on ids that are not empty after
  trimming.  On an empty employee id it prints \<open>Employee does not exist\<close> (no employee
  having the empty id), where the later version returns \<open>Invalid input.\<close>.
\<close>

lemma assignEmployeeToShift_cli_agrees:
  "trim e \<noteq> [] \<Longrightarrow> trim s \<noteq> [] \<Longrightarrow>
   assignEmployeeToShift_cli e s st =
     (message (fst (assignEmployeeToShift e s st)), snd (assignEmployeeToShift e s st))"
  by (simp add: assignEmployeeToShift_cli_def assignEmployeeToShift_def employeeExists_def
      shiftExists_def isAlreadyAssigned_def findEmployee_def findShift_def findAssignment_def
      addAssignment_def Let_def find_None_Bex list_ex_iff)

lemma assignEmployeeToShift_cli_empty_id:
  "trim e = [] \<Longrightarrow> \<not> (\<exists>x \<in> set (getAllEmployees st). employeeId x = []) \<Longrightarrow>
   assignEmployeeToShift_cli e s st = (''Employee does not exist'', st)
   \<and> fst (assignEmployeeToShift e s st) = \<lparr>ok = False, message = ''Invalid input.''\<rparr>"
  by (simp add: assignEmployeeToShift_cli_def assignEmployeeToShift_def employeeExists_def
      getAllEmployees_def Let_def list_ex_iff)

section \<open>Employee registration\<close>

text \<open>
  Claim C7.  When the name or the phone is empty after trimming, \<open>addNewEmployee\<close>
  returns \<open>Invalid input.\<close> and leaves the store as it was.  Otherwise it appends
  exactly one employee, made of the next id and the two trimmed strings, to the employees
  it read, and returns \<open>Employee added...\<close>.
\<close>

theorem addNewEmployee_result:
  "addNewEmployee n p st =
     (if trim n = [] \<or> trim p = []
        then (\<lparr>ok = False, message = ''Invalid input.''\<rparr>, st)
      else (\<lparr>ok = True, message = ''Employee added...''\<rparr>,
            st\<lparr>EMPLOYEES_FILE :=
                 Json_Array (getAllEmployees st @
                   [\<lparr>employeeId = getNextEmployeeId (getAllEmployees st),
                     name = trim n, phone = trim p\<rparr>])\<rparr>))"
  by (simp add: addNewEmployee_def addEmployee_def writeJsonArray_def getAllEmployees_def
      Let_def)

theorem addNewEmployee_result_witness:
  "addNewEmployee ''  '' ''777'' store0 = (\<lparr>ok = False, message = ''Invalid input.''\<rparr>, store0)
   \<and> fst (addNewEmployee ''Bob '' ''777'' store0) = \<lparr>ok = True, message = ''Employee added...''\<rparr>
   \<and> tl (getAllEmployees (snd (addNewEmployee ''Bob '' ''777'' store0))) =
       [\<lparr>employeeId = getNextEmployeeId (getAllEmployees store0), name = ''Bob'', phone = ''777''\<rparr>]"
  using addNewEmployee_result [of "''  ''" "''777''" store0]
    addNewEmployee_result [of "''Bob ''" "''777''" store0]
  by (simp add: trim_examples store0_def getAllEmployees_def)

section \<open>The configuration and the frame of each operation\<close>

text \<open>
  Claim C9.  The content of \<open>config.json\<close>, and so \<open>maxDailyHours\<close>, has no influence on
  the three operations: run on two stores that differ in the configuration only, with the
  same arguments, each returns the same result and leaves the same three collections.
\<close>

theorem config_noninterference:
  "fst (addNewEmployee n p (st\<lparr>CONFIG_FILE := c1\<rparr>)) =
     fst (addNewEmployee n p (st\<lparr>CONFIG_FILE := c2\<rparr>))
   \<and> collections (snd (addNewEmployee n p (st\<lparr>CONFIG_FILE := c1\<rparr>))) =
     collections (snd (addNewEmployee n p (st\<lparr>CONFIG_FILE := c2\<rparr>)))
   \<and> fst (assignEmployeeToShift e s (st\<lparr>CONFIG_FILE := c1\<rparr>)) =
     fst (assignEmployeeToShift e s (st\<lparr>CONFIG_FILE := c2\<rparr>))
   \<and> collections (snd (assignEmployeeToShift e s (st\<lparr>CONFIG_FILE := c1\<rparr>))) =
     collections (snd (assignEmployeeToShift e s (st\<lparr>CONFIG_FILE := c2\<rparr>)))
   \<and> fst (getEmployeeSchedule e (st\<lparr>CONFIG_FILE := c1\<rparr>)) =
     fst (getEmployeeSchedule e (st\<lparr>CONFIG_FILE := c2\<rparr>))
   \<and> collections (snd (getEmployeeSchedule e (st\<lparr>CONFIG_FILE := c1\<rparr>))) =
     collections (snd (getEmployeeSchedule e (st\<lparr>CONFIG_FILE := c2\<rparr>)))"
proof -
  have add: "addNewEmployee n p (st\<lparr>CONFIG_FILE := c\<rparr>) =
      (fst (addNewEmployee n p st), (snd (addNewEmployee n p st))\<lparr>CONFIG_FILE := c\<rparr>)" for c
    by (simp add: addNewEmployee_def addEmployee_def getAllEmployees_def Let_def)
  have asg: "assignEmployeeToShift e s (st\<lparr>CONFIG_FILE := c\<rparr>) =
      (fst (assignEmployeeToShift e s st), (snd (assignEmployeeToShift e s st))\<lparr>CONFIG_FILE := c\<rparr>)" for c
    by (simp add: assignEmployeeToShift_def findEmployee_def findShift_def findAssignment_def
        addAssignment_def Let_def)
  have rows: "rows_loop (st\<lparr>CONFIG_FILE := c\<rparr>) as rows = rows_loop st as rows" for c as rows
    by (induction as arbitrary: rows) (simp_all add: findShift_def split: option.splits)
  have sch: "getEmployeeSchedule e (st\<lparr>CONFIG_FILE := c\<rparr>) =
      (fst (getEmployeeSchedule e st), (snd (getEmployeeSchedule e st))\<lparr>CONFIG_FILE := c\<rparr>)" for c
    by (simp add: getEmployeeSchedule_def findEmployee_def getAssignmentsByEmployee_def
        rows Let_def)
  show ?thesis
    by (simp add: add asg sch collections_def)
qed

text \<open>
  Claim C10.  Each operation writes its own collection only: \<open>addNewEmployee\<close> leaves
  the shifts, the assignments and the configuration as they were,
  \<open>assignEmployeeToShift\<close> the employees, the shifts and the configuration, and
  \<open>getEmployeeSchedule\<close> the whole store.
\<close>

theorem operations_frame:
  "SHIFTS_FILE (snd (addNewEmployee n p st)) = SHIFTS_FILE st
   \<and> ASSIGNMENTS_FILE (snd (addNewEmployee n p st)) = ASSIGNMENTS_FILE st
   \<and> CONFIG_FILE (snd (addNewEmployee n p st)) = CONFIG_FILE st
   \<and> EMPLOYEES_FILE (snd (assignEmployeeToShift e s st)) = EMPLOYEES_FILE st
   \<and> SHIFTS_FILE (snd (assignEmployeeToShift e s st)) = SHIFTS_FILE st
   \<and> CONFIG_FILE (snd (assignEmployeeToShift e s st)) = CONFIG_FILE st
   \<and> snd (getEmployeeSchedule e st) = st"
  by (simp add: addNewEmployee_def addEmployee_def assignEmployeeToShift_def addAssignment_def
      getEmployeeSchedule_def Let_def)

text \<open>
  \<open>getMaxDailyHours\<close> is the only reader of the configuration; the business layer does
  not call it.  Its default is 9.
\<close>

lemma getMaxDailyHours_default:
  "CONFIG_FILE st \<in> {Config_Unreadable, Config_Malformed, Config_Json JNull, Config_Json (JObject [])}
   \<Longrightarrow> getMaxDailyHours st = Fin 9"
  by (auto simp: getMaxDailyHours_def)

section \<open>Unusable collection files\<close>

text \<open>
  Claim C8.  A collection file that is missing or unreadable, that does not hold JSON, or
  whose JSON value is not an array, reads as the empty list; \<open>readJsonArray\<close> returns a
  list in every case, so nothing is raised.  The operations see a collection through
  \<open>readJsonArray\<close> only: on two stores whose collections read as the same lists they
  return the same results and leave stores whose collections again read as the same lists.
  In particular an unusable file is treated as the empty array would be.
\<close>

theorem unusable_file_reads_as_empty:
  "readJsonArray Unreadable = [] \<and> readJsonArray Malformed = [] \<and> readJsonArray Not_Array = []
   \<and> (same_contents st st' \<longrightarrow>
        fst (addNewEmployee n p st) = fst (addNewEmployee n p st')
        \<and> same_contents (snd (addNewEmployee n p st)) (snd (addNewEmployee n p st'))
        \<and> fst (assignEmployeeToShift e s st) = fst (assignEmployeeToShift e s st')
        \<and> same_contents (snd (assignEmployeeToShift e s st)) (snd (assignEmployeeToShift e s st'))
        \<and> fst (getEmployeeSchedule e st) = fst (getEmployeeSchedule e st')
        \<and> same_contents (snd (getEmployeeSchedule e st)) (snd (getEmployeeSchedule e st')))"
proof -
  have rows: "rows_loop st as [] = rows_loop st' as []" if "same_contents st st'" for as
    using that by (simp add: rows_loop_map_filter findShift_def same_contents_def getAllShifts_def)
  have add: "same_contents st st' \<Longrightarrow>
      fst (addNewEmployee n p st) = fst (addNewEmployee n p st')
      \<and> same_contents (snd (addNewEmployee n p st)) (snd (addNewEmployee n p st'))"
    by (simp add: same_contents_def addNewEmployee_def addEmployee_def writeJsonArray_def
        getAllEmployees_def getAllShifts_def getAllAssignments_def Let_def)
  have asg: "same_contents st st' \<Longrightarrow>
      fst (assignEmployeeToShift e s st) = fst (assignEmployeeToShift e s st')
      \<and> same_contents (snd (assignEmployeeToShift e s st)) (snd (assignEmployeeToShift e s st'))"
    by (simp add: same_contents_def assignEmployeeToShift_def addAssignment_def
        findEmployee_def findShift_def findAssignment_def writeJsonArray_def
        getAllEmployees_def getAllShifts_def getAllAssignments_def Let_def)
  have sch: "same_contents st st' \<Longrightarrow>
      fst (getEmployeeSchedule e st) = fst (getEmployeeSchedule e st')
      \<and> same_contents (snd (getEmployeeSchedule e st)) (snd (getEmployeeSchedule e st'))"
    using rows
    by (simp add: getEmployeeSchedule_def findEmployee_def getAssignmentsByEmployee_def Let_def)
       (simp add: same_contents_def getAllEmployees_def getAllAssignments_def)
  show ?thesis
    using add asg sch by simp
qed

theorem unusable_file_reads_as_empty_witness:
  "same_contents store_bad store_empty
   \<and> fst (addNewEmployee ''Bob '' ''777'' store_bad) = fst (addNewEmployee ''Bob '' ''777'' store_empty)
   \<and> getAllEmployees (snd (addNewEmployee ''Bob '' ''777'' store_bad)) =
      getAllEmployees (snd (addNewEmployee ''Bob '' ''777'' store_empty))
   \<and> fst (assignEmployeeToShift ''E001'' ''S1'' store_bad) = \<lparr>ok = False, message = ''Employee does not exist''\<rparr>
   \<and> fst (assignEmployeeToShift ''E001'' ''S1'' store_empty) = \<lparr>ok = False, message = ''Employee does not exist''\<rparr>
   \<and> fst (getEmployeeSchedule ''E001'' store_bad) = fst (getEmployeeSchedule ''E001'' store_empty)"
proof -
  have h: "same_contents store_bad store_empty"
    by (simp add: same_contents_def store_bad_def store_empty_def getAllEmployees_def
        getAllShifts_def getAllAssignments_def)
  have e: "fst (assignEmployeeToShift ''E001'' ''S1'' store_empty) =
      \<lparr>ok = False, message = ''Employee does not exist''\<rparr>"
    by (simp add: assignEmployeeToShift_def trim_examples findEmployee_def store_empty_def)
  from unusable_file_reads_as_empty [of store_bad store_empty "''Bob ''" "''777''" "''E001''" "''S1''"] h e
  show ?thesis
    by (simp add: same_contents_def)
qed

section \<open>Schedule ordering\<close>

lemma length_bubble_pass: "length (bubble_pass xs) = length xs"
  by (induction xs rule: bubble_pass.induct) simp_all

lemma mset_bubble_pass: "mset (bubble_pass xs) = mset xs"
  by (induction xs rule: bubble_pass.induct) simp_all

lemma set_bubble_pass: "set (bubble_pass xs) = set xs"
  using mset_bubble_pass [of xs] by (metis set_mset_mset)

lemma filter_bubble_pass:
  "filter (\<lambda>r. shift_key r = k) (bubble_pass xs) = filter (\<lambda>r. shift_key r = k) xs"
  by (induction xs rule: bubble_pass.induct) auto

text \<open>The inner loop, started at index \<open>length pre\<close>, is a pass over the rest.\<close>

lemma swap_step_at:
  "swap_step (pre @ x # y # ys) (length pre) =
     (if shift_key x > shift_key y then pre @ y # x # ys else pre @ x # y # ys)"
  by (simp add: swap_step_def nth_append list_update_append Let_def)

lemma foldl_swap_step:
  "foldl swap_step (pre @ x # rest) [length pre ..< length pre + length rest] =
     pre @ bubble_pass (x # rest)"
proof (induction rest arbitrary: pre x)
  case Nil
  then show ?case by simp
next
  case (Cons y ys)
  have upt: "[length pre ..< length pre + length (y # ys)] =
      length pre # [length (pre @ [y]) ..< length (pre @ [y]) + length ys]"
    by (subst upt_rec) simp
  show ?case
  proof (cases "shift_key x > shift_key y")
    case True
    have "foldl swap_step (pre @ x # y # ys) [length pre ..< length pre + length (y # ys)] =
        foldl swap_step ((pre @ [y]) @ x # ys) [length (pre @ [y]) ..< length (pre @ [y]) + length ys]"
      unfolding upt using True by (simp add: swap_step_at del: upt_Suc)
    also have "\<dots> = (pre @ [y]) @ bubble_pass (x # ys)"
      by (rule Cons.IH)
    finally show ?thesis using True by simp
  next
    case False
    have "foldl swap_step (pre @ x # y # ys) [length pre ..< length pre + length (y # ys)] =
        foldl swap_step ((pre @ [x]) @ y # ys) [length (pre @ [x]) ..< length (pre @ [x]) + length ys]"
      unfolding upt using False by (simp add: swap_step_at del: upt_Suc)
    also have "\<dots> = (pre @ [x]) @ bubble_pass (y # ys)"
      by (rule Cons.IH)
    finally show ?thesis using False by simp
  qed
qed

lemma inner_loop_bubble_pass: "inner_loop rows = bubble_pass rows"
proof (cases rows)
  case Nil
  then show ?thesis by (simp add: inner_loop_def)
next
  case (Cons x rest)
  then show ?thesis
    using foldl_swap_step [of "[]" x rest] by (simp add: inner_loop_def)
qed

lemma foldl_ignore: "foldl (\<lambda>r i. f r) r is = (f ^^ length is) r"
  by (induction "is" arbitrary: r) (simp_all add: funpow_swap1)

lemma sortShifts_funpow: "sortShifts rows = (bubble_pass ^^ length rows) rows"
proof -
  have "inner_loop = bubble_pass"
    by (rule ext) (rule inner_loop_bubble_pass)
  then show ?thesis
    by (simp add: sortShifts_def foldl_ignore)
qed

lemma mset_funpow_bubble: "mset ((bubble_pass ^^ n) xs) = mset xs"
  by (induction n arbitrary: xs) (simp_all add: mset_bubble_pass funpow_swap1)

lemma set_funpow_bubble: "set ((bubble_pass ^^ n) xs) = set xs"
  using mset_funpow_bubble [of n xs] by (metis set_mset_mset)

lemma filter_funpow_bubble:
  "filter (\<lambda>r. shift_key r = k) ((bubble_pass ^^ n) xs) = filter (\<lambda>r. shift_key r = k) xs"
  by (induction n arbitrary: xs) (simp_all add: filter_bubble_pass funpow_swap1)

text \<open>A pass leaves a sorted list as it is, and brings a greatest element to the end.\<close>

lemma bubble_pass_sorted: "sorted (map shift_key xs) \<Longrightarrow> bubble_pass xs = xs"
  by (induction xs rule: bubble_pass.induct) auto

lemma bubble_pass_last:
  "xs \<noteq> [] \<Longrightarrow> x \<in> set xs \<Longrightarrow> shift_key x \<le> shift_key (last (bubble_pass xs))"
proof (induction xs arbitrary: x rule: bubble_pass.induct)
  case (1 a b xs)
  have ne: "bubble_pass (a # xs) \<noteq> []" "bubble_pass (b # xs) \<noteq> []"
    using length_bubble_pass [of "a # xs"] length_bubble_pass [of "b # xs"] by auto
  show ?case
  proof (cases "shift_key a > shift_key b")
    case True
    have "shift_key a \<le> shift_key (last (bubble_pass (a # xs)))"
      using 1(1) [OF True, of a] by simp
    moreover have "y \<in> set xs \<Longrightarrow> shift_key y \<le> shift_key (last (bubble_pass (a # xs)))" for y
      using 1(1) [OF True, of y] by simp
    ultimately show ?thesis
      using True 1(4) ne by auto
  next
    case False
    have "shift_key b \<le> shift_key (last (bubble_pass (b # xs)))"
      using 1(2) [OF False, of b] by simp
    moreover have "y \<in> set xs \<Longrightarrow> shift_key y \<le> shift_key (last (bubble_pass (b # xs)))" for y
      using 1(2) [OF False, of y] by simp
    ultimately show ?thesis
      using False 1(4) ne by auto
  qed
qed simp_all

lemma bubble_pass_append:
  "sorted (map shift_key zs) \<Longrightarrow> \<forall>x\<in>set xs. \<forall>z\<in>set zs. shift_key x \<le> shift_key z \<Longrightarrow>
   bubble_pass (xs @ zs) = bubble_pass xs @ zs"
proof (induction xs rule: bubble_pass.induct)
  case (1 a b xs)
  then show ?case by simp
next
  case (2 x)
  then show ?case
    by (cases zs) (auto simp: bubble_pass_sorted)
next
  case 3
  then show ?case by (simp add: bubble_pass_sorted)
qed

lemma funpow_bubble_append:
  "sorted (map shift_key zs) \<Longrightarrow> \<forall>x\<in>set xs. \<forall>z\<in>set zs. shift_key x \<le> shift_key z \<Longrightarrow>
   (bubble_pass ^^ n) (xs @ zs) = (bubble_pass ^^ n) xs @ zs"
proof (induction n arbitrary: xs)
  case 0
  then show ?case by simp
next
  case (Suc n)
  have "(bubble_pass ^^ Suc n) (xs @ zs) = (bubble_pass ^^ n) (bubble_pass xs @ zs)"
    using Suc.prems by (simp add: funpow_swap1 bubble_pass_append)
  also have "\<dots> = (bubble_pass ^^ n) (bubble_pass xs) @ zs"
    using Suc.prems by (intro Suc.IH) (simp_all add: set_bubble_pass)
  finally show ?case by (simp add: funpow_swap1)
qed

lemma sorted_funpow_bubble:
  "length xs \<le> n \<Longrightarrow> sorted (map shift_key ((bubble_pass ^^ n) xs))"
proof (induction n arbitrary: xs)
  case 0
  then show ?case by simp
next
  case (Suc n)
  show ?case
  proof (cases "xs = []")
    case True
    have "(bubble_pass ^^ m) [] = []" for m
      by (induction m) simp_all
    with True show ?thesis by simp
  next
    case False
    then have ne: "bubble_pass xs \<noteq> []"
      using length_bubble_pass [of xs] by auto
    define ys where "ys = butlast (bubble_pass xs)"
    define m where "m = last (bubble_pass xs)"
    have split: "bubble_pass xs = ys @ [m]"
      using ne by (simp add: ys_def m_def)
    have len: "length ys \<le> n"
      using Suc.prems length_bubble_pass [of xs] split by simp
    have le: "\<forall>x\<in>set ys. \<forall>z\<in>set [m]. shift_key x \<le> shift_key z"
    proof -
      have "set ys \<subseteq> set xs"
        using set_bubble_pass [of xs] split by auto
      then show ?thesis
        using bubble_pass_last [OF False] by (auto simp: m_def)
    qed
    have "(bubble_pass ^^ Suc n) xs = (bubble_pass ^^ n) (ys @ [m])"
      by (simp add: funpow_swap1 split)
    also have "\<dots> = (bubble_pass ^^ n) ys @ [m]"
      using le by (intro funpow_bubble_append) simp_all
    finally have eq: "(bubble_pass ^^ Suc n) xs = (bubble_pass ^^ n) ys @ [m]" .
    show ?thesis
      unfolding eq using Suc.IH [OF len] le
      by (simp add: sorted_append set_funpow_bubble)
  qed
qed

lemma mset_sortShifts: "mset (sortShifts rows) = mset rows"
  by (simp add: sortShifts_funpow mset_funpow_bubble)

lemma sorted_sortShifts: "sorted (map shift_key (sortShifts rows))"
  by (simp add: sortShifts_funpow sorted_funpow_bubble)

lemma stable_sortShifts:
  "filter (\<lambda>r. shift_key r = k) (sortShifts rows) = filter (\<lambda>r. shift_key r = k) rows"
  by (simp add: sortShifts_funpow filter_funpow_bubble)

lemma sortShifts_sort_key: "sortShifts rows = sort_key shift_key rows"
proof (rule sym, rule properties_for_sort_key)
  show "mset (sortShifts rows) = mset rows"
    by (rule mset_sortShifts)
  show "sorted (map shift_key (sortShifts rows))"
    by (rule sorted_sortShifts)
  show "filter (\<lambda>x. shift_key k = shift_key x) (sortShifts rows) =
      filter (\<lambda>x. shift_key k = shift_key x) rows" for k
    using stable_sortShifts [of "shift_key k" rows] by (simp add: eq_commute)
qed

text \<open>
  Claim C5.  \<open>sortShifts\<close> returns a permutation of its input that is ascending in the
  string \<open>date + startTime\<close>, compared as strings, and it is stable: the rows of any one
  key come out in the order in which they went in.  The three shifts of 2024-01-02 08:00,
  2024-01-01 09:00 and 2024-01-01 08:00 come out as 2024-01-01 08:00, 2024-01-01 09:00,
  2024-01-02 08:00.
\<close>

theorem sortShifts_stable_sort:
  "mset (sortShifts rows) = mset rows
   \<and> sorted (map shift_key (sortShifts rows))
   \<and> (\<forall>k. filter (\<lambda>r. shift_key r = k) (sortShifts rows) = filter (\<lambda>r. shift_key r = k) rows)
   \<and> sortShifts [shift_jan2_0800, shift_jan1_0900, shift_jan1_0800] =
       [shift_jan1_0800, shift_jan1_0900, shift_jan2_0800]"
proof -
  have "sortShifts [shift_jan2_0800, shift_jan1_0900, shift_jan1_0800] =
      [shift_jan1_0800, shift_jan1_0900, shift_jan2_0800]"
    by (simp add: sortShifts_def inner_loop_def swap_step_def shift_key_def
        shift_jan2_0800_def shift_jan1_0900_def shift_jan1_0800_def less_char_def)
  then show ?thesis
    by (simp add: mset_sortShifts sorted_sortShifts stable_sortShifts)
qed

section \<open>Schedule retrieval\<close>

lemma set_resolved_shifts:
  "set (resolved_shifts st eid) =
     {sh. \<exists>a \<in> set (getAllAssignments st).
            asg_employeeId a = eid \<and> findShift st (asg_shiftId a) = Some sh}"
  by (force simp: resolved_shifts_def map_filter_def image_iff)

text \<open>
  Claim C4.  Without an employee of the trimmed id, \<open>getEmployeeSchedule\<close> returns
  \<open>ok: false\<close>.  Otherwise it returns \<open>ok: true\<close> and, as rows, the sorted list of the
  shifts that the assignments of the employee resolve to: an assignment whose shift id
  is that of no stored shift is dropped without an error, every other one contributes its
  shift, and the rows are a permutation of these shifts in ascending order of
  \<open>date + startTime\<close>.
\<close>

theorem getEmployeeSchedule_rows:
  "getEmployeeSchedule eid st =
     (if \<not> (\<exists>x \<in> set (getAllEmployees st). employeeId x = trim eid)
        then (\<lparr>sched_ok = False, sched_message = Some [], sched_rows = None\<rparr>, st)
      else (\<lparr>sched_ok = True, sched_message = None,
             sched_rows = Some (sortShifts (resolved_shifts st (trim eid)))\<rparr>, st))
   \<and> mset (sortShifts (resolved_shifts st (trim eid))) = mset (resolved_shifts st (trim eid))
   \<and> sorted (map shift_key (sortShifts (resolved_shifts st (trim eid))))
   \<and> set (resolved_shifts st (trim eid)) =
       {sh. \<exists>a \<in> set (getAllAssignments st).
              asg_employeeId a = trim eid \<and> findShift st (asg_shiftId a) = Some sh}"
proof -
  have "rows_loop st (getAssignmentsByEmployee st (trim eid)) [] = resolved_shifts st (trim eid)"
    by (simp add: rows_loop_map_filter resolved_shifts_def getAssignmentsByEmployee_def
        getAllAssignments_def)
  then have "getEmployeeSchedule eid st =
     (if \<not> (\<exists>x \<in> set (getAllEmployees st). employeeId x = trim eid)
        then (\<lparr>sched_ok = False, sched_message = Some [], sched_rows = None\<rparr>, st)
      else (\<lparr>sched_ok = True, sched_message = None,
             sched_rows = Some (sortShifts (resolved_shifts st (trim eid)))\<rparr>, st))"
    by (simp add: getEmployeeSchedule_def findEmployee_def getAllEmployees_def Let_def
        find_None_Bex)
  then show ?thesis
    by (simp add: mset_sortShifts sorted_sortShifts set_resolved_shifts)
qed

theorem getEmployeeSchedule_rows_witness:
  "getEmployeeSchedule '' E001 '' store_schedule =
     (\<lparr>sched_ok = True, sched_message = None,
       sched_rows = Some [shift_jan1_0800, shift_jan1_0900, shift_jan2_0800]\<rparr>, store_schedule)
   \<and> resolved_shifts store_schedule ''E001'' = [shift_jan2_0800, shift_jan1_0900, shift_jan1_0800]
   \<and> fst (getEmployeeSchedule ''E002'' store_schedule) =
       \<lparr>sched_ok = False, sched_message = Some [], sched_rows = None\<rparr>"
proof -
  have t: "trim ''E002'' = ''E002''"
    by (simp add: trim_def is_ws_def)
  have r: "resolved_shifts store_schedule ''E001'' = [shift_jan2_0800, shift_jan1_0900, shift_jan1_0800]"
    by (simp add: resolved_shifts_def store_schedule_def getAllAssignments_def findShift_def
        List.map_filter_simps shift_jan2_0800_def shift_jan1_0900_def shift_jan1_0800_def)
  have s: "sortShifts [shift_jan2_0800, shift_jan1_0900, shift_jan1_0800] =
      [shift_jan1_0800, shift_jan1_0900, shift_jan2_0800]"
    by (simp add: sortShifts_def inner_loop_def swap_step_def shift_key_def
        shift_jan2_0800_def shift_jan1_0900_def shift_jan1_0800_def less_char_def)
  have e: "getAllEmployees store_schedule = [\<lparr>employeeId = ''E001'', name = ''Ann'', phone = ''555''\<rparr>]"
    by (simp add: getAllEmployees_def store_schedule_def)
  from getEmployeeSchedule_rows [of "'' E001 ''" store_schedule]
    getEmployeeSchedule_rows [of "''E002''" store_schedule]
  show ?thesis
    by (simp add: trim_examples t r s e)
qed

section \<open>Uniqueness of assignments\<close>

lemma assignEmployeeToShift_assignments:
  "getAllAssignments (snd (assignEmployeeToShift e s st)) =
     (if fst (assignEmployeeToShift e s st) = \<lparr>ok = True, message = ''Shift Recorded''\<rparr>
      then getAllAssignments st @ [\<lparr>asg_employeeId = trim e, asg_shiftId = trim s\<rparr>]
      else getAllAssignments st)"
  by (simp add: assignEmployeeToShift_def addAssignment_def writeJsonArray_def
      getAllAssignments_def Let_def)

lemma assignEmployeeToShift_recorded_iff:
  "(fst (assignEmployeeToShift e s st) = \<lparr>ok = True, message = ''Shift Recorded''\<rparr>) =
     (trim e \<noteq> [] \<and> trim s \<noteq> []
      \<and> (\<exists>x \<in> set (getAllEmployees st). employeeId x = trim e)
      \<and> (\<exists>x \<in> set (getAllShifts st). shiftId x = trim s)
      \<and> \<not> (\<exists>a \<in> set (getAllAssignments st).
               asg_employeeId a = trim e \<and> asg_shiftId a = trim s))"
  by (simp add: assignEmployeeToShift_def findEmployee_def findShift_def findAssignment_def
      getAllEmployees_def getAllShifts_def getAllAssignments_def Let_def find_None_Bex)

lemma unique_pairs_assignEmployeeToShift:
  "unique_pairs st \<Longrightarrow> unique_pairs (snd (assignEmployeeToShift e s st))"
  unfolding unique_pairs_def assignEmployeeToShift_assignments
  by (auto simp: assignEmployeeToShift_recorded_iff)

text \<open>
  Claim C2.  A store with at most one assignment for each pair of an employee id and a
  shift id is left so by each of the three operations.  For an existing employee \<open>e\<close> and
  an existing shift \<open>s\<close> (ids taken after trimming) without an assignment, the first call
  of \<open>assignEmployeeToShift\<close> returns \<open>Shift Recorded\<close>, a second call returns
  \<open>Employee already assigned to shift\<close>, and the store then holds exactly one assignment
  of the pair.
\<close>

theorem assignment_pairs_unique:
  "(unique_pairs st \<longrightarrow>
      unique_pairs (snd (addNewEmployee n p st))
      \<and> unique_pairs (snd (assignEmployeeToShift e s st))
      \<and> unique_pairs (snd (getEmployeeSchedule e st)))
   \<and> (trim e \<noteq> [] \<and> trim s \<noteq> []
      \<and> (\<exists>x \<in> set (getAllEmployees st). employeeId x = trim e)
      \<and> (\<exists>x \<in> set (getAllShifts st). shiftId x = trim s)
      \<and> assignments_of st (trim e) (trim s) = [] \<longrightarrow>
      fst (assignEmployeeToShift e s st) = \<lparr>ok = True, message = ''Shift Recorded''\<rparr>
      \<and> fst (assignEmployeeToShift e s (snd (assignEmployeeToShift e s st))) =
          \<lparr>ok = False, message = ''Employee already assigned to shift''\<rparr>
      \<and> assignments_of (snd (assignEmployeeToShift e s (snd (assignEmployeeToShift e s st))))
            (trim e) (trim s) = [\<lparr>asg_employeeId = trim e, asg_shiftId = trim s\<rparr>])"
proof -
  have inv: "unique_pairs st \<Longrightarrow>
      unique_pairs (snd (addNewEmployee n p st))
      \<and> unique_pairs (snd (assignEmployeeToShift e s st))
      \<and> unique_pairs (snd (getEmployeeSchedule e st))"
    using unique_pairs_assignEmployeeToShift [of st e s]
    by (simp add: unique_pairs_def addNewEmployee_def addEmployee_def getEmployeeSchedule_def
        getAllAssignments_def Let_def)
  have twice: "fst (assignEmployeeToShift e s st) = \<lparr>ok = True, message = ''Shift Recorded''\<rparr>
      \<and> fst (assignEmployeeToShift e s (snd (assignEmployeeToShift e s st))) =
          \<lparr>ok = False, message = ''Employee already assigned to shift''\<rparr>
      \<and> assignments_of (snd (assignEmployeeToShift e s (snd (assignEmployeeToShift e s st))))
            (trim e) (trim s) = [\<lparr>asg_employeeId = trim e, asg_shiftId = trim s\<rparr>]"
    if ne: "trim e \<noteq> []" "trim s \<noteq> []"
      and emp: "\<exists>x \<in> set (getAllEmployees st). employeeId x = trim e"
      and sh: "\<exists>x \<in> set (getAllShifts st). shiftId x = trim s"
      and none: "assignments_of st (trim e) (trim s) = []"
  proof -
    have no: "\<not> (\<exists>a \<in> set (getAllAssignments st).
               asg_employeeId a = trim e \<and> asg_shiftId a = trim s)"
      using none by (auto simp: assignments_of_def filter_empty_conv)
    define st1 where "st1 = snd (assignEmployeeToShift e s st)"
    have first: "fst (assignEmployeeToShift e s st) = \<lparr>ok = True, message = ''Shift Recorded''\<rparr>"
      using ne emp sh no by (simp add: assignEmployeeToShift_recorded_iff)
    have st1: "st1 = st\<lparr>ASSIGNMENTS_FILE :=
        Json_Array (getAllAssignments st @ [\<lparr>asg_employeeId = trim e, asg_shiftId = trim s\<rparr>])\<rparr>"
      using ne emp sh no
      by (simp add: st1_def assignEmployeeToShift_def findEmployee_def findShift_def
          findAssignment_def addAssignment_def writeJsonArray_def getAllEmployees_def
          getAllShifts_def getAllAssignments_def Let_def find_None_Bex)
    have emp1: "\<exists>x \<in> set (getAllEmployees st1). employeeId x = trim e"
      using emp by (simp add: st1 getAllEmployees_def)
    have sh1: "\<exists>x \<in> set (getAllShifts st1). shiftId x = trim s"
      using sh by (simp add: st1 getAllShifts_def)
    have as1: "getAllAssignments st1 =
        getAllAssignments st @ [\<lparr>asg_employeeId = trim e, asg_shiftId = trim s\<rparr>]"
      by (simp add: st1 getAllAssignments_def)
    have second: "assignEmployeeToShift e s st1 =
        (\<lparr>ok = False, message = ''Employee already assigned to shift''\<rparr>, st1)"
      using ne emp1 sh1 as1
      by (simp add: assignEmployeeToShift_def findEmployee_def findShift_def
          findAssignment_def getAllEmployees_def getAllShifts_def getAllAssignments_def
          Let_def find_None_Bex)
    have "assignments_of st1 (trim e) (trim s) = [\<lparr>asg_employeeId = trim e, asg_shiftId = trim s\<rparr>]"
      using none by (simp add: assignments_of_def as1)
    then show ?thesis
      using first second by (simp add: st1_def)
  qed
  show ?thesis
    using inv twice by blast
qed

theorem assignment_pairs_unique_witness:
  "unique_pairs store0
   \<and> unique_pairs (snd (assignEmployeeToShift '' E001 '' ''S1'' store0))
   \<and> assignments_of store0 ''E001'' ''S1'' = []
   \<and> fst (assignEmployeeToShift '' E001 '' ''S1'' store0) = \<lparr>ok = True, message = ''Shift Recorded''\<rparr>
   \<and> fst (assignEmployeeToShift '' E001 '' ''S1'' (snd (assignEmployeeToShift '' E001 '' ''S1'' store0))) =
          \<lparr>ok = False, message = ''Employee already assigned to shift''\<rparr>
   \<and> assignments_of (snd (assignEmployeeToShift '' E001 '' ''S1''
          (snd (assignEmployeeToShift '' E001 '' ''S1'' store0)))) ''E001'' ''S1'' =
        [\<lparr>asg_employeeId = ''E001'', asg_shiftId = ''S1''\<rparr>]"
proof -
  have u: "unique_pairs store0"
    by (simp add: unique_pairs_def store0_def getAllAssignments_def)
  have a: "assignments_of store0 ''E001'' ''S1'' = []"
    by (simp add: assignments_of_def store0_def getAllAssignments_def)
  have e: "\<exists>x \<in> set (getAllEmployees store0). employeeId x = ''E001''"
    by (simp add: store0_def getAllEmployees_def)
  have s: "\<exists>x \<in> set (getAllShifts store0). shiftId x = ''S1''"
    by (simp add: store0_def getAllShifts_def)
  from assignment_pairs_unique [of store0 "''Bob''" "''777''" "'' E001 ''" "''S1''"] u a e s
  show ?thesis
    by (simp add: trim_examples)
qed

section \<open>Facts about numbers\<close>

subsection \<open>Whole numbers up to \<open>2 ^ 53\<close> are doubles\<close>

lemma quotient_of_nat: "quotient_of (of_nat n) = (int n, 1)"
  using quotient_of_int [of "int n"] by simp

lemma bitlen_pos: "0 < x \<Longrightarrow> 0 \<le> bitlen x - 1"
  using bitlen_bounds [of x] by (cases "bitlen x \<le> 0") auto

lemma bitlen_1: "bitlen 1 = 1"
  by (simp add: bitlen_def floorlog_def)

lemma ilog2_of_nat:
  assumes "0 < n"
  shows "ilog2 (of_nat n) = bitlen (int n) - 1"
proof -
  have pos: "0 < int n" using assms by simp
  define l where "l = bitlen (int n) - 1"
  have l0: "0 \<le> l" unfolding l_def using pos by (rule bitlen_pos)
  from bitlen_bounds [OF pos] have "2 ^ nat l \<le> int n" by (simp add: l_def)
  then have "(of_int (2 ^ nat l) :: rat) \<le> of_int (int n)"
    by (simp only: of_int_le_iff)
  then have "(2::rat) ^ nat l \<le> of_nat n"
    by simp
  then have "pow2 l \<le> of_nat n"
    using l0 by (simp add: pow2_def)
  moreover have "bitlen (int n) - bitlen 1 = l"
    by (simp add: l_def bitlen_1)
  ultimately show ?thesis
    unfolding ilog2_def quotient_of_nat l_def [symmetric] by (simp add: Let_def)
qed

lemma round_half_even_int: "round_half_even (of_int k) = k"
  by (simp add: round_half_even_def)

lemma round_double_of_nat:
  assumes "n \<le> 2 ^ 53"
  shows "round_double (of_nat n) = Fin (of_nat n)"
proof (cases "n = 0")
  case True
  then show ?thesis by (simp add: round_double_def)
next
  case False
  then have pos: "0 < int n" by simp
  define l where "l = bitlen (int n) - 1"
  have l0: "0 \<le> l" unfolding l_def using pos by (rule bitlen_pos)
  have low: "2 ^ nat l \<le> int n"
    using bitlen_bounds [OF pos] by (simp add: l_def)
  have "int n \<le> 2 ^ 53"
    using assms by (metis of_nat_le_iff of_nat_numeral of_nat_power)
  with low have "(2::int) ^ nat l \<le> 2 ^ 53"
    by (rule order_trans)
  then have l53: "nat l \<le> 53"
    by (intro power_le_imp_le_exp [of "2::int"]) simp
  have il: "ilog2 (of_nat n) = l"
    using False by (simp add: ilog2_of_nat l_def)
  have e: "max (ilog2 (of_nat n)) (- 1022) = l"
    using il l0 by simp
  have big: "(of_nat n :: rat) < pow2 1024"
  proof -
    have "(of_nat n :: rat) \<le> 2 ^ 53"
      using assms by (metis of_nat_le_iff of_nat_numeral of_nat_power)
    also have "\<dots> < 2 ^ 1024" by simp
    finally show ?thesis by (simp add: pow2_def)
  qed
  have v: "of_int (round_half_even (of_nat n / pow2 (l - 52))) * pow2 (l - 52) = (of_nat n :: rat)"
  proof (cases "l \<le> 52")
    case True
    have u: "pow2 (l - 52) = 1 / 2 ^ nat (52 - l)"
      using True by (cases "l = 52") (simp_all add: pow2_def)
    have "of_nat n / pow2 (l - 52) = (of_int (int n * 2 ^ nat (52 - l)) :: rat)"
      by (simp add: u)
    then have "round_half_even (of_nat n / pow2 (l - 52)) = int n * 2 ^ nat (52 - l)"
      by (simp only: round_half_even_int)
    then show ?thesis
      by (simp add: u)
  next
    case False
    with l53 l0 have l: "l = 53" by simp
    have "int n = 2 ^ 53"
      using low \<open>int n \<le> 2 ^ 53\<close> l by simp
    then have n: "(of_nat n :: rat) = 2 ^ 53"
      by (metis of_int_numeral of_int_of_nat_eq of_int_power)
    have "of_nat n / pow2 (l - 52) = (of_int (2 ^ 52) :: rat)"
      by (simp add: n l pow2_def)
    then have "round_half_even (of_nat n / pow2 (l - 52)) = 2 ^ 52"
      by (simp only: round_half_even_int)
    then show ?thesis
      by (simp add: n l pow2_def)
  qed
  show ?thesis
    using False big v by (simp add: round_double_def e Let_def)
qed

subsection \<open>Decimal digits\<close>

lemma dropWhile_hd: "xs \<noteq> [] \<Longrightarrow> \<not> P (hd xs) \<Longrightarrow> dropWhile P xs = xs"
  by (cases xs) simp_all

lemma trim_id: "xs \<noteq> [] \<Longrightarrow> \<not> is_ws (hd xs) \<Longrightarrow> \<not> is_ws (last xs) \<Longrightarrow> trim xs = xs"
  by (simp add: trim_def dropWhile_hd hd_rev)

lemma is_digit_digit_char: "d < 10 \<Longrightarrow> is_digit (digit_char d)"
  by (simp add: is_digit_def digit_char_def)

lemma digit_value_digit_char: "d < 10 \<Longrightarrow> digit_value 10 (digit_char d) = Some d"
  by (simp add: digit_value_def digit_char_def)

lemma is_digit_not_ws: "is_digit c \<Longrightarrow> \<not> is_ws c"
  by (auto simp: is_digit_def is_ws_def)

lemma is_digit_zero: "is_digit (CHR ''0'')" "digit_value 10 (CHR ''0'') = Some 0"
  by (simp_all add: is_digit_def digit_value_def)

lemma is_digit_not_special:
  "is_digit c \<Longrightarrow> c \<notin> {CHR ''x'', CHR ''X'', CHR ''o'', CHR ''O'', CHR ''b'', CHR ''B'',
     CHR ''+'', CHR ''-'', CHR ''I'', CHR ''.''}"
  by (auto simp: is_digit_def)

lemma digits_value_append:
  "digits_value r (xs @ ys) acc =
     (case digits_value r xs acc of None \<Rightarrow> None | Some a \<Rightarrow> digits_value r ys a)"
  by (induction xs arbitrary: acc) (simp_all split: option.splits)

lemma all_digits_decimal: "list_all is_digit (decimal n)"
proof (induction n rule: decimal.induct)
  case (1 n)
  show ?case
  proof (cases "n < 10")
    case True
    then show ?thesis by (subst decimal.simps) (simp add: is_digit_digit_char)
  next
    case False
    with 1 show ?thesis by (subst decimal.simps) (simp add: is_digit_digit_char)
  qed
qed

lemma decimal_not_Nil: "decimal n \<noteq> []"
  by (subst decimal.simps) simp

lemma digits_value_decimal:
  "digits_value 10 (decimal n) acc = Some (acc * 10 ^ length (decimal n) + n)"
proof (induction n arbitrary: acc rule: decimal.induct)
  case (1 n)
  show ?case
  proof (cases "n < 10")
    case True
    then show ?thesis by (subst (1 2) decimal.simps) (simp add: digit_value_digit_char)
  next
    case False
    have "digits_value 10 (decimal n) acc =
        digits_value 10 (decimal (n div 10) @ [digit_char (n mod 10)]) acc"
      using False by (subst decimal.simps) simp
    also have "\<dots> = Some (10 * (acc * 10 ^ length (decimal (n div 10)) + n div 10) + n mod 10)"
      using False by (simp add: digits_value_append 1 digit_value_digit_char)
    also have "length (decimal n) = Suc (length (decimal (n div 10)))"
      using False by (subst decimal.simps) simp
    ultimately show ?thesis
      by (simp add: algebra_simps)
  qed
qed

lemma digits_value_zeros: "digits_value 10 (replicate k (CHR ''0'')) 0 = Some 0"
  by (induction k) (simp_all add: is_digit_zero)

lemma digits_value_padded:
  "digits_value 10 (replicate k (CHR ''0'') @ decimal n) 0 = Some n"
  by (simp add: digits_value_append digits_value_zeros digits_value_decimal)

lemma all_digits_padded: "list_all is_digit (replicate k (CHR ''0'') @ decimal n)"
  using all_digits_decimal [of n] by (auto simp: list_all_iff is_digit_zero)

text \<open>\<open>Number\<close> of a string of decimal digits.\<close>

lemma js_Number_digits:
  assumes "list_all is_digit ds" "ds \<noteq> []" "digits_value 10 ds 0 = Some m"
  shows "js_Number ds = round_double (of_nat m)"
proof -
  obtain c r where ds: "ds = c # r"
    using assms(2) by (cases ds) auto
  have c: "is_digit c" and r: "list_all is_digit r"
    using assms(1) by (simp_all add: ds)
  have l: "is_digit (last ds)"
    using assms(1,2) by (simp add: list_all_iff)
  have t: "trim ds = ds"
    using assms(2) c l by (intro trim_id) (simp_all add: ds is_digit_not_ws)
  have hd: "r \<noteq> [] \<Longrightarrow> is_digit (hd r)"
    using r by (cases r) simp_all
  have tw: "takeWhile is_digit ds = ds" "dropWhile is_digit ds = []"
    using assms(1) by (simp_all add: list_all_iff)
  have inf: "ds \<noteq> ''Infinity''"
    using c by (auto simp: ds is_digit_def)
  have u: "unsigned_decimal ds = round_double (of_nat m)"
    using assms(2,3) inf by (simp add: unsigned_decimal_def tw numeral_value_def)
  have "js_Number ds = unsigned_decimal ds"
  proof (cases "r = []")
    case True
    then show ?thesis
      unfolding js_Number_def t Let_def using is_digit_not_special [OF c]
      by (simp add: ds)
  next
    case False
    then show ?thesis
      unfolding js_Number_def t Let_def
      using is_digit_not_special [OF c] is_digit_not_special [OF hd [OF False]]
      by (simp add: ds)
  qed
  with u show ?thesis by simp
qed

lemma js_Number_padded:
  "n \<le> 2 ^ 53 \<Longrightarrow> js_Number (replicate k (CHR ''0'') @ decimal n) = Fin (of_nat n)"
  using js_Number_digits [OF all_digits_padded _ digits_value_padded, of k n]
  by (simp add: decimal_not_Nil round_double_of_nat)

subsection \<open>Evaluation\<close>

lemma digit_chars:
  "digit_char 0 = CHR ''0''" "digit_char 1 = CHR ''1''" "digit_char 2 = CHR ''2''"
  "digit_char 3 = CHR ''3''" "digit_char 4 = CHR ''4''" "digit_char 5 = CHR ''5''"
  "digit_char 6 = CHR ''6''" "digit_char 7 = CHR ''7''" "digit_char 8 = CHR ''8''"
  "digit_char 9 = CHR ''9''" "digit_char (Suc 0) = CHR ''1''"
  by code_simp+

lemma decimal_lt_10: "n < 10 \<Longrightarrow> decimal n = [digit_char n]"
  by (subst decimal.simps) simp

lemma decimal_ge_10: "\<not> n < 10 \<Longrightarrow> decimal n = decimal (n div 10) @ [digit_char (n mod 10)]"
  by (subst decimal.simps) simp

lemmas decimal_eval = decimal_lt_10 decimal_ge_10 digit_chars

lemma js_String_of_nat:
  "0 < n \<Longrightarrow> n \<le> 2 ^ 53 \<Longrightarrow> js_String (Fin (of_nat n)) = decimal n"
proof -
  assume n: "0 < n" "n \<le> 2 ^ 53"
  have "(of_nat n :: rat) \<le> of_nat (2 ^ 53)"
    using n(2) by (simp only: of_nat_le_iff)
  then have "(of_nat n :: rat) \<le> 2 ^ 53"
    by simp
  moreover have "is_int (of_nat n)"
    by (simp add: is_int_def)
  ultimately show ?thesis
    using n(1) by (simp add: positive_to_string_def)
qed

lemma js_add_one_of_nat:
  "n < 2 ^ 53 \<Longrightarrow> js_add (Fin (of_nat n)) (Fin 1) = Fin (of_nat (n + 1))"
  using round_double_of_nat [of "n + 1"] by (simp add: add.commute)

lemma round_double_numeral:
  "numeral k \<le> (2::nat) ^ 53 \<Longrightarrow> round_double (numeral k) = Fin (numeral k)"
  using round_double_of_nat [of "numeral k"] by simp

lemma round_double_1: "round_double 1 = Fin 1"
  using round_double_of_nat [of 1] by simp

lemma round_double_0: "round_double 0 = Fin 0"
  by (simp add: round_double_def)

lemma js_Number_digits_Fin:
  "list_all is_digit ds \<Longrightarrow> ds \<noteq> [] \<Longrightarrow> digits_value 10 ds 0 = Some m \<Longrightarrow> m \<le> 2 ^ 53 \<Longrightarrow>
   js_Number ds = Fin (of_nat m)"
  by (simp add: js_Number_digits round_double_of_nat)

lemmas js_Number_eval =
  js_Number_def trim_def is_ws_def unsigned_decimal_def is_digit_def numeral_value_def
  digit_value_def exponent_part_def radix_literal_def round_double_numeral round_double_1
  round_double_0

lemma staff_suffixes:
  "suffix_number ''E007'' = Fin 7" "suffix_number ''Ebad'' = NaN"
  "suffix_number ''E-5'' = Fin (- 5)" "suffix_number ''E1234'' = Fin 1234"
  "suffix_number ''E1235'' = Fin 1235"
  by (simp_all add: suffix_number_def js_Number_eval)

lemma infinity_suffix: "suffix_number ''EInfinity'' = PosInf"
  by (simp add: suffix_number_def js_Number_eval)


section \<open>Identifier generator\<close>

lemma maxNumber_loop_greatest:
  "\<not> isNaN m \<Longrightarrow>
   (maxNumber_loop L m = m \<or> maxNumber_loop L m \<in> (\<lambda>e. suffix_number (employeeId e)) ` set L)
   \<and> \<not> isNaN (maxNumber_loop L m)
   \<and> \<not> js_lt (maxNumber_loop L m) m
   \<and> (\<forall>e\<in>set L. \<not> js_gt (suffix_number (employeeId e)) (maxNumber_loop L m))"
proof (induction L arbitrary: m)
  case Nil
  then show ?case by (cases m) simp_all
next
  case (Cons e L)
  define v where "v = suffix_number (employeeId e)"
  define m' where "m' = (if js_gt v m then v else m)"
  have step: "maxNumber_loop (e # L) m = maxNumber_loop L m'"
    by (simp add: m'_def v_def suffix_number_def Let_def)
  have nn: "\<not> isNaN m'"
    using Cons.prems by (cases v; cases m) (auto simp: m'_def js_gt_def)
  note IH = Cons.IH [OF nn]
  have trans: "\<not> js_lt r m' \<Longrightarrow> \<not> isNaN r \<Longrightarrow> \<not> js_lt r m \<and> \<not> js_gt v r" for r
    using Cons.prems by (cases v; cases m; cases r) (auto simp: m'_def js_gt_def split: if_splits)
  have mem: "m' = m \<or> m' = v"
    by (simp add: m'_def)
  show ?case
    unfolding step using IH trans [of "maxNumber_loop L m'"] mem
    by (auto simp: v_def)
qed

lemma is_int_of_nat: "is_int q \<Longrightarrow> 0 \<le> q \<Longrightarrow> q = of_nat (nat \<lfloor>q\<rfloor>)"
  by (metis is_int_def of_int_of_nat_eq of_nat_nat zero_le_floor)

lemma counted_bound: "safe_suffix v \<Longrightarrow> counted v < 2 ^ 53"
proof (cases v)
  case (Fin q)
  assume "safe_suffix v"
  then consider "q \<le> 0" | "is_int q" "0 < q" "q < 2 ^ 53"
    by (cases "q \<le> 0") (auto simp: safe_suffix_def Fin)
  then show ?thesis
  proof cases
    case 1
    then have "\<lfloor>q\<rfloor> \<le> 0" by (simp add: floor_le_zero)
    then show ?thesis by (simp add: counted_def Fin)
  next
    case 2
    then have "(of_nat (nat \<lfloor>q\<rfloor>) :: rat) < of_nat (2 ^ 53)"
      using is_int_of_nat [of q] by simp
    then show ?thesis
      by (simp only: of_nat_less_iff counted_def Fin jsnum.case)
  qed
qed (simp_all add: counted_def)

lemma maxNumber_loop_safe:
  "\<forall>e\<in>set L. safe_suffix (suffix_number (employeeId e)) \<Longrightarrow>
   maxNumber_loop L (Fin (of_nat m)) = Fin (of_nat (foldl (\<lambda>m e. max m (counted (suffix_number (employeeId e)))) m L))"
proof (induction L arbitrary: m)
  case Nil
  then show ?case by simp
next
  case (Cons e L)
  define v where "v = suffix_number (employeeId e)"
  have safe: "safe_suffix v"
    using Cons.prems by (simp add: v_def)
  have "(if js_gt v (Fin (of_nat m)) then v else Fin (of_nat m)) = Fin (of_nat (max m (counted v)))"
  proof (cases v)
    case (Fin q)
    from safe consider "q \<le> 0" | "is_int q" "0 < q"
      by (cases "q \<le> 0") (auto simp: safe_suffix_def Fin)
    then show ?thesis
    proof cases
      case 1
      then have "\<lfloor>q\<rfloor> \<le> 0" by (simp add: floor_le_zero)
      moreover have "\<not> (of_nat m :: rat) < q"
        using 1 by (smt (verit) of_nat_0_le_iff order_trans not_less)
      ultimately show ?thesis
        by (simp add: Fin js_gt_def counted_def)
    next
      case 2
      then have q: "q = of_nat (nat \<lfloor>q\<rfloor>)"
        using is_int_of_nat [of q] by simp
      have "((of_nat m :: rat) < q) = (m < nat \<lfloor>q\<rfloor>)"
        by (subst q) (simp only: of_nat_less_iff)
      then show ?thesis
        using q by (auto simp: Fin js_gt_def counted_def max_def)
    qed
  qed (use safe in \<open>simp_all add: js_gt_def counted_def safe_suffix_def\<close>)
  note ifeq = this
  have "maxNumber_loop (e # L) (Fin (of_nat m)) =
      maxNumber_loop L (if js_gt v (Fin (of_nat m)) then v else Fin (of_nat m))"
    by (simp add: v_def suffix_number_def Let_def)
  then have "maxNumber_loop (e # L) (Fin (of_nat m)) =
      maxNumber_loop L (Fin (of_nat (max m (counted v))))"
    by (simp only: ifeq)
  also have "\<dots> = Fin (of_nat (foldl (\<lambda>m e. max m (counted (suffix_number (employeeId e)))) (max m (counted v)) L))"
    using Cons.prems by (intro Cons.IH) simp
  finally show ?case by (simp add: v_def)
qed

lemma foldl_max_foldr:
  "foldl (\<lambda>m e. max m (f e)) (m::nat) L = max m (foldr (\<lambda>e m. max (f e) m) L 0)"
  by (induction L arbitrary: m) (simp_all add: max.assoc)

lemma maxNumber_loop_max_suffix:
  "\<forall>e\<in>set L. safe_suffix (suffix_number (employeeId e)) \<Longrightarrow>
   maxNumber_loop L (Fin 0) = Fin (of_nat (max_suffix L))"
  using maxNumber_loop_safe [of L 0] by (simp add: foldl_max_foldr max_suffix_def)

lemma counted_le_max_suffix: "e \<in> set L \<Longrightarrow> counted (suffix_number (employeeId e)) \<le> max_suffix L"
  unfolding max_suffix_def by (induction L) auto

lemma max_suffix_bound:
  "\<forall>e\<in>set L. safe_suffix (suffix_number (employeeId e)) \<Longrightarrow> max_suffix L < 2 ^ 53"
  unfolding max_suffix_def using counted_bound by (induction L) auto

subsection \<open>Logarithms and powers\<close>

lemma pow2_powi: "pow2 e = 2 powi e"
proof (cases e rule: int_cases4)
  case (nonneg n)
  then show ?thesis by (simp add: pow2_def)
next
  case (neg n)
  have "pow2 (- int n) = 1 / 2 ^ n"
    using neg(1) by (simp add: pow2_def)
  moreover have "(2::rat) powi (- int n) = 1 / 2 ^ n"
    by (simp add: power_int_minus divide_inverse)
  ultimately show ?thesis using neg(2) by simp
qed


lemma pow10_powi: "pow10 e = 10 powi e"
proof (cases e rule: int_cases4)
  case (nonneg n)
  then show ?thesis by (simp add: pow10_def)
next
  case (neg n)
  have "pow10 (- int n) = 1 / 10 ^ n"
    using neg(1) by (simp add: pow10_def)
  moreover have "(10::rat) powi (- int n) = 1 / 10 ^ n"
    by (simp add: power_int_minus divide_inverse)
  ultimately show ?thesis using neg(2) by simp
qed


lemma floorlog_quotient_bounds:
  fixes q :: rat and \<beta> :: nat
  assumes q: "0 < q" and \<beta>: "1 < \<beta>" and ab: "quotient_of q = (a, b)"
  defines "l \<equiv> int (floorlog \<beta> (nat a)) - int (floorlog \<beta> (nat b))"
  shows "of_nat \<beta> powi (l - 1) < q" and "q < of_nat \<beta> powi (l + 1)"
proof -
  have b: "0 < b" using ab by (rule quotient_of_denom_pos)
  have qab: "q = of_int a / of_int b" using ab by (rule quotient_of_div)
  have a: "0 < a"
    using q b unfolding qab by (simp add: zero_less_divide_iff)
  define A B where "A = floorlog \<beta> (nat a)" and "B = floorlog \<beta> (nat b)"
  have na: "0 < nat a" and nb: "0 < nat b" using a b by simp_all
  from floorlog_bounds [OF na \<beta>] have A: "\<beta> ^ (A - 1) \<le> nat a" "nat a < \<beta> ^ A"
    by (simp_all add: A_def)
  from floorlog_bounds [OF nb \<beta>] have B: "\<beta> ^ (B - 1) \<le> nat b" "nat b < \<beta> ^ B"
    by (simp_all add: B_def)
  have A1: "1 \<le> A" using A(2) na by (cases A) simp_all
  have B1: "1 \<le> B" using B(2) nb by (cases B) simp_all
  define r :: rat where "r = of_nat \<beta>"
  have r: "1 < r" "0 < r" using \<beta> by (simp_all add: r_def)
  have ra: "r ^ (A - 1) \<le> of_int a" "of_int a < r ^ A"
  proof -
    have "(of_nat (\<beta> ^ (A - 1)) :: rat) \<le> of_nat (nat a)"
      using A(1) by (simp only: of_nat_le_iff)
    then show "r ^ (A - 1) \<le> of_int a" using a by (simp add: r_def)
    have "(of_nat (nat a) :: rat) < of_nat (\<beta> ^ A)"
      using A(2) by (simp only: of_nat_less_iff)
    then show "of_int a < r ^ A" using a by (simp add: r_def)
  qed
  have rb: "r ^ (B - 1) \<le> of_int b" "of_int b < r ^ B"
  proof -
    have "(of_nat (\<beta> ^ (B - 1)) :: rat) \<le> of_nat (nat b)"
      using B(1) by (simp only: of_nat_le_iff)
    then show "r ^ (B - 1) \<le> of_int b" using b by (simp add: r_def)
    have "(of_nat (nat b) :: rat) < of_nat (\<beta> ^ B)"
      using B(2) by (simp only: of_nat_less_iff)
    then show "of_int b < r ^ B" using b by (simp add: r_def)
  qed
  have l: "l = int A - int B" by (simp add: l_def A_def B_def)
  have bpos: "(0::rat) < of_int b" using b by simp
  have apos: "(0::rat) < of_int a" using a by simp
  have "r powi (l - 1) = r ^ (A - 1) / r ^ B"
  proof -
    have "l - 1 = int (A - 1) - int B" using A1 by (simp add: l)
    then show ?thesis using r by (simp add: power_int_diff)
  qed
  also have "\<dots> \<le> of_int a / r ^ B"
    using ra(1) r by (intro divide_right_mono) simp_all
  also have "\<dots> < of_int a / of_int b"
    using rb(2) apos bpos by (intro frac_less2) simp_all
  finally show "of_nat \<beta> powi (l - 1) < q" by (simp add: qab r_def)
  have "of_int a / of_int b < r ^ A / of_int b"
    using ra(2) bpos apos by (intro frac_less) simp_all
  also have "\<dots> \<le> r ^ A / r ^ (B - 1)"
    using rb(1) r by (intro frac_le) simp_all
  also have "\<dots> = r powi (l + 1)"
  proof -
    have "l + 1 = int A - int (B - 1)" using B1 by (simp add: l)
    then show ?thesis using r by (simp add: power_int_diff)
  qed
  finally show "q < of_nat \<beta> powi (l + 1)" by (simp add: qab r_def)
qed

lemma ilog2_bounds:
  assumes "0 < q"
  shows "pow2 (ilog2 q) \<le> q" and "q < pow2 (ilog2 q + 1)"
proof -
  obtain a b where ab: "quotient_of q = (a, b)" by (cases "quotient_of q")
  define l where "l = bitlen a - bitlen b"
  have l: "l = int (floorlog 2 (nat a)) - int (floorlog 2 (nat b))"
    by (simp add: l_def bitlen_def)
  from floorlog_quotient_bounds [OF assms _ ab, of 2]
  have b: "2 powi (l - 1) < q" "q < 2 powi (l + 1)"
    by (simp_all add: l)
  have il: "ilog2 q = (if pow2 l \<le> q then l else l - 1)"
    by (simp add: ilog2_def ab l_def Let_def)
  show "pow2 (ilog2 q) \<le> q"
    using b(1) by (simp add: il pow2_powi)
  show "q < pow2 (ilog2 q + 1)"
    using b(2) by (auto simp: il pow2_powi)
qed

lemma ilog10_bounds:
  assumes "0 < q"
  shows "pow10 (ilog10 q) \<le> q" and "q < pow10 (ilog10 q + 1)"
proof -
  obtain a b where ab: "quotient_of q = (a, b)" by (cases "quotient_of q")
  define l where "l = int (floorlog 10 (nat a)) - int (floorlog 10 (nat b))"
  from floorlog_quotient_bounds [OF assms _ ab, of 10]
  have b: "10 powi (l - 1) < q" "q < 10 powi (l + 1)"
    by (simp_all add: l_def)
  have il: "ilog10 q = (if pow10 l \<le> q then l else l - 1)"
    by (simp add: ilog10_def ab l_def Let_def)
  show "pow10 (ilog10 q) \<le> q"
    using b(1) by (simp add: il pow10_powi)
  show "q < pow10 (ilog10 q + 1)"
    using b(2) by (auto simp: il pow10_powi)
qed

lemma pow2_mono: "a \<le> b \<Longrightarrow> pow2 a \<le> pow2 b"
  by (simp add: pow2_powi power_int_increasing)

lemma pow2_strict_mono: "a < b \<Longrightarrow> pow2 a < pow2 b"
  by (simp add: pow2_powi power_int_strict_increasing)

lemma pow10_mono: "a \<le> b \<Longrightarrow> pow10 a \<le> pow10 b"
  by (simp add: pow10_powi power_int_increasing)

lemma pow10_strict_mono: "a < b \<Longrightarrow> pow10 a < pow10 b"
  by (simp add: pow10_powi power_int_strict_increasing)

lemma pow2_pos: "0 < pow2 e"
  by (simp add: pow2_powi)

lemma pow10_pos: "0 < pow10 e"
  by (simp add: pow10_powi)

lemma pow2_add: "pow2 (a + b) = pow2 a * pow2 b"
  by (simp add: pow2_powi power_int_add)

lemma pow10_add: "pow10 (a + b) = pow10 a * pow10 b"
  by (simp add: pow10_powi power_int_add)

lemma pow2_nat: "pow2 (int n) = 2 ^ n"
  by (simp add: pow2_def)

lemma pow10_nat: "pow10 (int n) = 10 ^ n"
  by (simp add: pow10_def)

lemma ilog2_unique:
  assumes "pow2 e \<le> q" "q < pow2 (e + 1)"
  shows "ilog2 q = e"
proof -
  have q: "0 < q" using assms(1) pow2_pos [of e] by simp
  note b = ilog2_bounds [OF q]
  have "\<not> ilog2 q < e"
  proof
    assume "ilog2 q < e"
    then have "pow2 (ilog2 q + 1) \<le> pow2 e" by (intro pow2_mono) simp
    with b(2) assms(1) show False by simp
  qed
  moreover have "\<not> e < ilog2 q"
  proof
    assume "e < ilog2 q"
    then have "pow2 (e + 1) \<le> pow2 (ilog2 q)" by (intro pow2_mono) simp
    with b(1) assms(2) show False by simp
  qed
  ultimately show ?thesis by simp
qed

lemma ilog10_unique:
  assumes "pow10 e \<le> q" "q < pow10 (e + 1)"
  shows "ilog10 q = e"
proof -
  have q: "0 < q" using assms(1) pow10_pos [of e] by simp
  note b = ilog10_bounds [OF q]
  have "\<not> ilog10 q < e"
  proof
    assume "ilog10 q < e"
    then have "pow10 (ilog10 q + 1) \<le> pow10 e" by (intro pow10_mono) simp
    with b(2) assms(1) show False by simp
  qed
  moreover have "\<not> e < ilog10 q"
  proof
    assume "e < ilog10 q"
    then have "pow10 (e + 1) \<le> pow10 (ilog10 q)" by (intro pow10_mono) simp
    with b(1) assms(2) show False by simp
  qed
  ultimately show ?thesis by simp
qed

subsection \<open>Rounding to a double\<close>

lemma rhe_near:
  assumes "\<bar>t - of_int K\<bar> < 1 / 2"
  shows "round_half_even t = K"
proof (cases "of_int K \<le> t")
  case True
  then have f: "\<lfloor>t\<rfloor> = K"
    using assms by (intro floor_unique) auto
  show ?thesis
    using assms True by (simp add: round_half_even_def f Let_def)
next
  case False
  then have f: "\<lfloor>t\<rfloor> = K - 1"
    using assms by (intro floor_unique) auto
  show ?thesis
    using assms False by (simp add: round_half_even_def f Let_def)
qed

lemma rhe_err: "\<bar>of_int (round_half_even t) - t\<bar> \<le> 1 / 2"
proof -
  have "of_int \<lfloor>t\<rfloor> \<le> t" "t < of_int \<lfloor>t\<rfloor> + 1"
    by linarith+
  then show ?thesis
    by (auto simp: round_half_even_def Let_def abs_le_iff)
qed

lemma rhe_ge: "of_int K \<le> t \<Longrightarrow> K \<le> round_half_even t"
proof -
  assume "of_int K \<le> t"
  then have "K \<le> \<lfloor>t\<rfloor>" by (simp add: le_floor_iff)
  then show ?thesis
    by (auto simp: round_half_even_def Let_def)
qed

lemma rhe_le: "t \<le> of_int K \<Longrightarrow> round_half_even t \<le> K"
proof (cases "t = of_int K")
  case True
  then show ?thesis by (simp add: round_half_even_int)
next
  case False
  assume "t \<le> of_int K"
  with False have "t < of_int K" by simp
  then have "\<lfloor>t\<rfloor> < K" by (simp add: floor_less_iff)
  then show ?thesis
    by (auto simp: round_half_even_def Let_def)
qed

lemma pow2_1: "pow2 1 = 2"
  by (simp add: pow2_def)

lemma pow2_numeral: "pow2 (numeral k) = 2 ^ numeral k"
  by (simp add: pow2_def)

lemma pow2_0: "pow2 0 = 1"
  by (simp add: pow2_def)

lemma pow2_52: "pow2 e = 2 ^ 52 * pow2 (e - 52)"
  using pow2_add [of 52 "e - 52"] by (simp only: pow2_numeral) simp

lemma pow2_Suc: "pow2 (e + 1) = 2 * pow2 e"
  using pow2_add [of 1 e] by (simp only: pow2_1 add.commute)

lemma pow2_pred: "pow2 (e - 1) = pow2 e / 2"
  using pow2_Suc [of "e - 1"] by simp

lemma round_double_normal:
  assumes q: "0 < q" and lo: "- 1022 \<le> ilog2 q" and hi: "ilog2 q \<le> 1022"
  defines "u \<equiv> pow2 (ilog2 q - 52)"
  defines "M \<equiv> round_half_even (q / u)"
  shows "round_double q = Fin (of_int M * u)" and "2 ^ 52 \<le> M" and "M \<le> 2 ^ 53"
    and "\<bar>of_int M * u - q\<bar> \<le> u / 2"
proof -
  have u: "0 < u" by (simp add: u_def pow2_pos)
  note b = ilog2_bounds [OF q]
  have pe: "pow2 (ilog2 q) = 2 ^ 52 * u"
    unfolding u_def by (rule pow2_52)
  have lo52: "of_int (2 ^ 52) \<le> q / u"
    using b(1) u by (simp add: pe le_divide_eq)
  have hi53: "q / u \<le> of_int (2 ^ 53)"
    using b(2) u by (simp add: pow2_Suc pe divide_le_eq)
  show M52: "2 ^ 52 \<le> M"
    unfolding M_def using lo52 by (rule rhe_ge)
  show M53: "M \<le> 2 ^ 53"
    unfolding M_def using hi53 by (rule rhe_le)
  have "\<bar>of_int M - q / u\<bar> \<le> 1 / 2"
    unfolding M_def by (rule rhe_err)
  then have "\<bar>of_int M - q / u\<bar> * u \<le> 1 / 2 * u"
    using u by (intro mult_right_mono) simp_all
  moreover have "of_int M * u - q = (of_int M - q / u) * u"
    using u by (simp add: left_diff_distrib)
  then have "\<bar>of_int M * u - q\<bar> = \<bar>of_int M - q / u\<bar> * u"
    using u by (simp only: abs_mult abs_of_pos)
  ultimately show "\<bar>of_int M * u - q\<bar> \<le> u / 2"
    by simp
  have "(of_int M :: rat) \<le> of_int (2 ^ 53)"
    using M53 by (simp only: of_int_le_iff)
  then have "of_int M * u \<le> 2 ^ 53 * u"
    using u by (intro mult_right_mono) simp_all
  also have "\<dots> = pow2 (ilog2 q + 1)"
    by (simp add: pow2_Suc pe)
  also have "\<dots> \<le> pow2 1023"
    using hi by (intro pow2_mono) simp
  also have "\<dots> < pow2 1024"
    by (intro pow2_strict_mono) simp
  finally have small: "\<not> pow2 1024 \<le> of_int M * u" by simp
  have e: "max (ilog2 \<bar>q\<bar>) (- 1022) = ilog2 q"
    using q lo by simp
  show "round_double q = Fin (of_int M * u)"
    using q small unfolding round_double_def e Let_def
    by (simp add: u_def M_def)
qed

lemma pow2_53: "pow2 (e - 52) = 2 * pow2 (e - 53)"
  using pow2_Suc [of "e - 53"] by simp

lemma pow2_54: "pow2 (e - 53) = 2 * pow2 (e - 54)"
  using pow2_Suc [of "e - 54"] by simp

text \<open>A rational near enough to a double rounds to it.\<close>

lemma round_double_near_same:
  assumes M: "2 ^ 52 \<le> M" "M < 2 ^ 53" and e: "- 1022 \<le> e" "e \<le> 1022"
    and x: "x = of_int M * pow2 (e - 52)"
    and y: "pow2 e \<le> y" "\<bar>y - x\<bar> < pow2 (e - 53)"
  shows "round_double y = Fin x"
proof -
  define u where "u = pow2 (e - 52)"
  have u: "0 < u" by (simp add: u_def pow2_pos)
  have h: "pow2 (e - 53) = u / 2" by (simp add: u_def pow2_53)
  have "(of_int M :: rat) \<le> of_int (2 ^ 53 - 1)"
    using M(2) by (simp only: of_int_le_iff)
  then have "x \<le> (2 ^ 53 - 1) * u"
    unfolding x u_def [symmetric] using u by (intro mult_right_mono) simp_all
  then have "y < 2 ^ 53 * u"
    using y(2) u unfolding h abs_less_iff by (simp add: left_diff_distrib)
  also have "\<dots> = pow2 (e + 1)"
    using pow2_52 [of e] by (simp add: pow2_Suc u_def)
  finally have il: "ilog2 y = e"
    using y(1) by (intro ilog2_unique)
  have ypos: "0 < y" using y(1) pow2_pos [of e] by simp
  have "\<bar>y / u - of_int M\<bar> * u = \<bar>y - x\<bar>"
  proof -
    have "y - x = (y / u - of_int M) * u"
      using u by (simp add: x u_def left_diff_distrib)
    then show ?thesis
      using u by (simp only: abs_mult abs_of_pos)
  qed
  then have "\<bar>y / u - of_int M\<bar> * u < 1 / 2 * u"
    using y(2) by (simp add: h)
  then have "\<bar>y / u - of_int M\<bar> < 1 / 2"
    using u by (simp only: mult_less_cancel_right_pos)
  then have "round_half_even (y / u) = M"
    by (rule rhe_near)
  then show ?thesis
    using round_double_normal(1) [OF ypos] e by (simp add: il u_def x)
qed

lemma round_double_near_below:
  assumes M: "2 ^ 52 \<le> M" "M < 2 ^ 53" and e: "- 1021 \<le> e" "e \<le> 1022"
    and x: "x = of_int M * pow2 (e - 52)"
    and y: "y < pow2 e" "\<bar>y - x\<bar> < pow2 (e - 54)"
  shows "round_double y = Fin x"
proof -
  define w where "w = pow2 (e - 54)"
  have w: "0 < w" by (simp add: w_def pow2_pos)
  have u: "pow2 (e - 52) = 4 * w" "pow2 (e - 53) = 2 * w"
    by (simp_all add: w_def pow2_53 pow2_54)
  have pe: "pow2 e = 2 ^ 54 * w"
    using pow2_52 [of e] by (simp add: u)
  have "(of_int (2 ^ 52) :: rat) \<le> of_int M"
    using M(1) by (simp only: of_int_le_iff)
  then have "2 ^ 52 * (4 * w) \<le> x"
    unfolding x u using w by (intro mult_right_mono) simp_all
  then have xe: "pow2 e \<le> x"
    by (simp add: pe)
  have "pow2 (e - 1) = 2 ^ 53 * w"
    by (simp add: pow2_pred pe)
  also have "\<dots> \<le> 2 ^ 54 * w - w"
    using w by simp
  also have "\<dots> < y"
    using y(2) xe by (simp add: pe abs_less_iff w_def [symmetric])
  finally have lo: "pow2 (e - 1) \<le> y" by simp
  have il: "ilog2 y = e - 1"
    using lo y(1) by (intro ilog2_unique) simp_all
  have ypos: "0 < y" using lo pow2_pos [of "e - 1"] by simp
  have "\<bar>y / (2 * w) - of_int (2 * M)\<bar> * (2 * w) = \<bar>y - x\<bar>"
  proof -
    have "y - x = (y / (2 * w) - of_int (2 * M)) * (2 * w)"
      using w by (simp add: x u left_diff_distrib)
    moreover have "0 < 2 * w" using w by simp
    ultimately show ?thesis
      by (simp only: abs_mult abs_of_pos)
  qed
  then have "\<bar>y / (2 * w) - of_int (2 * M)\<bar> * (2 * w) < 1 / 2 * (2 * w)"
    using y(2) by (simp add: w_def)
  moreover have "0 < 2 * w" using w by simp
  ultimately have "\<bar>y / (2 * w) - of_int (2 * M)\<bar> < 1 / 2"
    by (simp only: mult_less_cancel_right_pos)
  then have "round_half_even (y / (2 * w)) = 2 * M"
    by (rule rhe_near)
  moreover have "pow2 (ilog2 y - 52) = 2 * w"
    by (simp add: il u)
  ultimately show ?thesis
    using round_double_normal(1) [OF ypos] e by (simp add: il x u)
qed

lemma round_double_near:
  assumes M: "2 ^ 52 \<le> M" "M < 2 ^ 53" and e: "- 1021 \<le> e" "e \<le> 1022"
    and x: "x = of_int M * pow2 (e - 52)"
    and y: "\<bar>y - x\<bar> < pow2 (e - 54)"
  shows "round_double y = Fin x"
proof (cases "pow2 e \<le> y")
  case True
  have "pow2 (e - 54) \<le> pow2 (e - 53)" by (intro pow2_mono) simp
  with y have "\<bar>y - x\<bar> < pow2 (e - 53)" by simp
  with True show ?thesis
    using M e x by (intro round_double_near_same [of M e]) simp_all
next
  case False
  then show ?thesis
    using M e x y by (intro round_double_near_below [of M e]) simp_all
qed

text \<open>Adding one to a number from 0 to below \<open>2 ^ 53\<close>.\<close>

lemma round_double_add_one:
  assumes m: "0 \<le> m" "m < 2 ^ 53"
  obtains M e where "round_double (m + 1) = Fin (of_int M * pow2 (e - 52))"
    and "2 ^ 52 \<le> M" and "M < 2 ^ 53" and "0 \<le> e" and "e \<le> 53"
    and "m < of_int M * pow2 (e - 52)"
proof -
  define q where "q = m + 1"
  have q: "0 < q" "1 \<le> q" "q < 2 ^ 53 + 1" using m by (simp_all add: q_def)
  define e where "e = ilog2 q"
  note b = ilog2_bounds [OF q(1), folded e_def]
  have e0: "0 \<le> e"
  proof (rule ccontr)
    assume "\<not> 0 \<le> e"
    then have "pow2 (e + 1) \<le> pow2 0" by (intro pow2_mono) simp
    with b(2) q(2) show False by (simp add: pow2_0)
  qed
  have e53: "e \<le> 53"
  proof (rule ccontr)
    assume "\<not> e \<le> 53"
    then have "pow2 54 \<le> pow2 e" by (intro pow2_mono) simp
    with b(1) q(3) show False by (simp add: pow2_numeral)
  qed
  define u where "u = pow2 (e - 52)"
  define M where "M = round_half_even (q / u)"
  have u: "0 < u" by (simp add: u_def pow2_pos)
  from round_double_normal [OF q(1), folded e_def, folded u_def, folded M_def] e0 e53
  have r: "round_double q = Fin (of_int M * u)" "2 ^ 52 \<le> M" "M \<le> 2 ^ 53"
      "\<bar>of_int M * u - q\<bar> \<le> u / 2"
    by simp_all
  show thesis
  proof (cases "e = 53")
    case True
    have u2: "u = 2" by (simp add: u_def True pow2_1)
    have "\<bar>q / 2 - of_int (2 ^ 52)\<bar> < 1 / 2"
      using b(1) q(3) by (simp add: True pow2_numeral abs_less_iff)
    then have M52: "M = 2 ^ 52"
      unfolding M_def u2 by (rule rhe_near)
    show ?thesis
    proof (rule that [of M e])
      show "round_double (m + 1) = Fin (of_int M * pow2 (e - 52))"
        using r(1) by (simp add: q_def u_def)
      show "2 ^ 52 \<le> M" "M < 2 ^ 53" by (simp_all add: M52)
      show "0 \<le> e" "e \<le> 53" by (simp_all add: True)
      show "m < of_int M * pow2 (e - 52)"
        using m(2) by (simp add: M52 True pow2_1)
    qed
  next
    case False
    with e53 have e52: "e \<le> 52" by simp
    have u1: "u \<le> 1"
    proof -
      have "pow2 (e - 52) \<le> pow2 0" using e52 by (intro pow2_mono) simp
      then show ?thesis by (simp add: u_def pow2_0)
    qed
    have gt: "m < of_int M * u"
      using r(4) u1 unfolding q_def abs_le_iff by linarith
    show ?thesis
    proof (cases "M = 2 ^ 53")
      case True
      have v: "of_int M * u = of_int (2 ^ 52) * pow2 (e + 1 - 52)"
        using pow2_Suc [of "e - 52"] by (simp add: True u_def)
      show ?thesis
      proof (rule that [of "2 ^ 52" "e + 1"])
        show "round_double (m + 1) = Fin (of_int (2 ^ 52) * pow2 (e + 1 - 52))"
          using r(1) v by (simp add: q_def)
        show "(2::int) ^ 52 \<le> 2 ^ 52" "(2::int) ^ 52 < 2 ^ 53" by simp_all
        show "0 \<le> e + 1" "e + 1 \<le> 53" using e0 e52 by simp_all
        show "m < of_int (2 ^ 52) * pow2 (e + 1 - 52)"
          using gt v by simp
      qed
    next
      case False
      show ?thesis
      proof (rule that [of M e])
        show "round_double (m + 1) = Fin (of_int M * pow2 (e - 52))"
          using r(1) by (simp add: q_def u_def)
        show "2 ^ 52 \<le> M" by (rule r(2))
        show "M < 2 ^ 53" using r(3) False by simp
        show "0 \<le> e" "e \<le> 53" using e0 e53 by simp_all
        show "m < of_int M * pow2 (e - 52)"
          using gt by (simp add: u_def)
      qed
    qed
  qed
qed

subsection \<open>Writing a double and reading it back\<close>

lemma pow10_numeral: "pow10 (numeral k) = 10 ^ numeral k"
  by (simp add: pow10_def)

lemma pow10_1: "pow10 1 = 10"
  by (simp add: pow10_def)

lemma pow10_0: "pow10 0 = 1"
  by (simp add: pow10_def)

lemma candidates_iff:
  "((s, n) \<in> set (candidates x k)) =
     ((n = ilog10 x + 1 \<or> n = ilog10 x + 2)
      \<and> (s = \<lfloor>x / pow10 (n - int k)\<rfloor> \<or> s = \<lfloor>x / pow10 (n - int k)\<rfloor> + 1)
      \<and> 10 ^ (k - 1) \<le> s \<and> s < 10 ^ k
      \<and> round_double (of_int s * pow10 (n - int k)) = Fin x)"
  by (auto simp: candidates_def Let_def)

text \<open>Seventeen digits suffice for a double from 1 to below \<open>2 ^ 54\<close>.\<close>

lemma candidates_17:
  assumes M: "2 ^ 52 \<le> M" "M < 2 ^ 53" and e: "0 \<le> e" "e \<le> 53"
    and x: "x = of_int M * pow2 (e - 52)"
  shows "candidates x 17 \<noteq> []"
proof -
  define u where "u = pow2 (e - 52)"
  define w where "w = pow2 (e - 54)"
  have w: "0 < w" by (simp add: w_def pow2_pos)
  have uw: "u = 4 * w" "pow2 (e - 53) = 2 * w"
    by (simp_all add: u_def w_def pow2_53 pow2_54)
  have pe: "pow2 e = 2 ^ 54 * w"
    using pow2_52 [of e] by (simp add: uw u_def [symmetric])
  have xM: "x = of_int M * (4 * w)"
    by (simp add: x uw u_def [symmetric])
  have "(of_int (2 ^ 52) :: rat) \<le> of_int M"
    using M(1) by (simp only: of_int_le_iff)
  then have "2 ^ 52 * (4 * w) \<le> x"
    unfolding xM using w by (intro mult_right_mono) simp_all
  then have xlo: "pow2 e \<le> x" by (simp add: pe)
  have "(of_int M :: rat) \<le> of_int (2 ^ 53 - 1)"
    using M(2) by (simp only: of_int_le_iff)
  then have "x \<le> (2 ^ 53 - 1) * (4 * w)"
    unfolding xM using w by (intro mult_right_mono) simp_all
  then have xhi: "x < 2 ^ 55 * w" using w by simp
  have xpos: "0 < x" using xlo pow2_pos [of e] by simp
  define n0 where "n0 = ilog10 x + 1"
  define d where "d = pow10 (n0 - 17)"
  have d: "0 < d" by (simp add: d_def pow10_pos)
  have p1: "pow10 (ilog10 x) = 10 ^ 16 * d"
    using pow10_add [of 16 "n0 - 17"] by (simp add: d_def n0_def pow10_numeral)
  have p2: "pow10 (ilog10 x + 1) = 10 ^ 17 * d"
    using pow10_add [of 17 "n0 - 17"] by (simp add: d_def n0_def pow10_numeral add.commute)
  have p3: "pow10 (n0 + 1 - 17) = 10 * d"
    using pow10_add [of 1 "n0 - 17"] by (simp add: d_def pow10_1)
  note b = ilog10_bounds [OF xpos, unfolded p1 p2]
  define t where "t = x / d"
  have t: "10 ^ 16 \<le> t" "t < 10 ^ 17"
    using b d by (simp_all add: t_def le_divide_eq divide_less_eq)
  have xt: "x = t * d" using d by (simp add: t_def)
  define f where "f = \<lfloor>t\<rfloor>"
  have f: "of_int f \<le> t" "t < of_int f + 1"
    unfolding f_def by linarith+
  have f16: "10 ^ 16 \<le> f"
  proof -
    have "(of_int (10 ^ 16) :: rat) \<le> t" using t(1) by simp
    then show ?thesis unfolding f_def by (simp only: le_floor_iff)
  qed
  have f17: "f < 10 ^ 17"
  proof -
    have "t < (of_int (10 ^ 17) :: rat)" using t(2) by simp
    then show ?thesis unfolding f_def by (simp only: floor_less_iff)
  qed
  have dsmall: "d < 4 * w"
  proof -
    have "10 ^ 16 * d < 2 ^ 55 * w" using b(1) xhi by simp
    also have "\<dots> \<le> 10 ^ 16 * (4 * w)" using w by simp
    finally show ?thesis by simp
  qed
  have mem: "(s, n0) \<in> set (candidates x 17)"
    if "s = f \<or> s = f + 1" "10 ^ 16 \<le> s" "s < 10 ^ 17"
      "round_double (of_int s * d) = Fin x" for s
    using that unfolding candidates_iff
    by (simp add: n0_def [symmetric] d_def [symmetric] t_def [symmetric] f_def [symmetric])
  show ?thesis
  proof (cases "t - of_int f \<le> 1 / 2")
    case True
    define y where "y = of_int f * d"
    have yx: "y \<le> x" "x - y \<le> d / 2"
    proof -
      have "x - y = (t - of_int f) * d" by (simp add: xt y_def left_diff_distrib)
      moreover have "0 \<le> (t - of_int f) * d" using f(1) d by simp
      moreover have "(t - of_int f) * d \<le> 1 / 2 * d"
        using True d by (intro mult_right_mono) simp_all
      ultimately show "y \<le> x" "x - y \<le> d / 2" by simp_all
    qed
    have "round_double y = Fin x"
    proof (cases "pow2 e \<le> y")
      case True
      have "\<bar>y - x\<bar> < pow2 (e - 53)"
        using yx dsmall by (simp add: uw)
      with True show ?thesis
        using M e x by (intro round_double_near_same [of M e]) simp_all
    next
      case False
      have "of_int M * (4 * w) < 2 ^ 54 * w + 2 * w"
        using False yx dsmall by (simp add: pe xM [symmetric])
      then have "of_int M * (4 * w) < (2 ^ 52 + 1 / 2) * (4 * w)"
        by (simp add: algebra_simps)
      then have "(of_int M :: rat) < 2 ^ 52 + 1 / 2"
        using w by (simp only: mult_less_cancel_right_pos) 
      then have "(of_int M :: rat) < of_int (2 ^ 52 + 1)"
        by simp
      then have "M < 2 ^ 52 + 1"
        by (simp only: of_int_less_iff)
      with M(1) have M52: "M = 2 ^ 52" by simp
      have xe: "x = 2 ^ 54 * w" by (simp add: xM M52)
      have "10 ^ 16 * d \<le> 2 ^ 54 * w" using b(1) by (simp add: xe)
      also have "\<dots> < 10 ^ 16 * (2 * w)" using w by simp
      finally have "d < 2 * w" by simp
      then have "\<bar>y - x\<bar> < pow2 (e - 54)"
        using yx by (simp add: w_def [symmetric])
      with False show ?thesis
        using M e x by (intro round_double_near_below [of M e]) simp_all
    qed
    then have "(f, n0) \<in> set (candidates x 17)"
      using f16 f17 by (intro mem) (simp_all add: y_def)
    then show ?thesis by auto
  next
    case False
    define y where "y = of_int (f + 1) * d"
    have yx: "x < y" "y - x < d / 2"
    proof -
      have "y - x = (of_int f + 1 - t) * d" by (simp add: xt y_def left_diff_distrib)
      moreover have "0 < (of_int f + 1 - t) * d" using f(2) d by simp
      moreover have "(of_int f + 1 - t) * d < 1 / 2 * d"
        using False d by (intro mult_strict_right_mono) simp_all
      ultimately show "x < y" "y - x < d / 2" by simp_all
    qed
    have r: "round_double y = Fin x"
    proof -
      have "\<bar>y - x\<bar> < pow2 (e - 53)"
        using yx dsmall by (simp add: uw)
      moreover have "pow2 e \<le> y" using xlo yx(1) by simp
      ultimately show ?thesis
        using M e x by (intro round_double_near_same [of M e]) simp_all
    qed
    show ?thesis
    proof (cases "f + 1 < 10 ^ 17")
      case True
      have "(f + 1, n0) \<in> set (candidates x 17)"
        using f16 True r by (intro mem) (simp_all add: y_def)
      then show ?thesis by auto
    next
      case False
      with f17 have f1: "f + 1 = 10 ^ 17" by simp
      then have ft: "(of_int f :: rat) = 10 ^ 17 - 1"
        by (metis add_diff_cancel_right' of_int_1 of_int_add of_int_numeral of_int_power)
      have t1: "10 ^ 17 - 1 / 2 < t"
        using \<open>\<not> t - of_int f \<le> 1 / 2\<close> by (simp add: ft)
      have fl: "\<lfloor>x / (10 * d)\<rfloor> = 10 ^ 16 - 1"
      proof (rule floor_unique)
        have "x / (10 * d) = t / 10" using d by (simp add: xt)
        then show "of_int (10 ^ 16 - 1) \<le> x / (10 * d)" "x / (10 * d) < of_int (10 ^ 16 - 1) + 1"
          using t1 t(2) by simp_all
      qed
      have "y = of_int (10 ^ 16) * (10 * d)"
        by (simp add: y_def f1)
      with r have r': "round_double (of_int (10 ^ 16) * (10 * d)) = Fin x" by simp
      have pd: "pow10 (ilog10 x + 2 - int 17) = 10 * d"
        using p3 by (simp add: n0_def)
      have "(10 ^ 16, ilog10 x + 2) \<in> set (candidates x 17)"
        unfolding candidates_iff pd fl using r' by simp
      then show ?thesis by auto
    qed
  qed
qed

lemma foldl_closer_mem: "foldl (closer x k) c cs \<in> set (c # cs)"
proof (induction cs arbitrary: c)
  case Nil
  then show ?case by simp
next
  case (Cons d cs)
  have "closer x k c d = c \<or> closer x k c d = d"
    by (simp add: closer_def Let_def)
  then show ?case
    using Cons [of "closer x k c d"] by auto
qed

lemma shortest_Some:
  "k0 \<in> set ks \<Longrightarrow> candidates x k0 \<noteq> [] \<Longrightarrow>
   \<exists>k s n. shortest x ks = Some (k, s, n) \<and> k \<in> set ks \<and> (s, n) \<in> set (candidates x k)"
proof (induction ks)
  case Nil
  then show ?case by simp
next
  case (Cons k ks)
  show ?case
  proof (cases "candidates x k")
    case Nil
    with Cons.prems have "k0 \<in> set ks" by auto
    from Cons.IH [OF this Cons.prems(2)] Nil show ?thesis by auto
  next
    case (Cons c cs)
    obtain s n where sn: "foldl (closer x k) c cs = (s, n)"
      by (cases "foldl (closer x k) c cs")
    have "(s, n) \<in> set (candidates x k)"
      using foldl_closer_mem [of x k c cs] by (simp add: Cons sn)
    then show ?thesis by (simp add: Cons sn)
  qed
qed

lemma length_decimal:
  "1 \<le> k \<Longrightarrow> 10 ^ (k - 1) \<le> s \<Longrightarrow> s < 10 ^ k \<Longrightarrow> length (decimal s) = k"
proof (induction k arbitrary: s)
  case 0
  then show ?case by simp
next
  case (Suc k)
  show ?case
  proof (cases "k = 0")
    case True
    with Suc.prems have "s < 10" by simp
    then show ?thesis using True by (simp add: decimal_lt_10)
  next
    case False
    then have k: "1 \<le> k" by simp
    have "(10::nat) ^ 1 \<le> 10 ^ k" using k by (intro power_increasing) simp_all
    with Suc.prems(2) have s10: "\<not> s < 10" by simp
    obtain k' where k': "k = Suc k'" using k by (cases k) auto
    have "10 ^ (k - 1) * 10 \<le> s" using Suc.prems(2) by (simp add: k')
    then have lo: "10 ^ (k - 1) \<le> s div 10" by (simp add: less_eq_div_iff_mult_less_eq)
    have hi: "s div 10 < 10 ^ k" using Suc.prems(3) by (simp add: div_less_iff_less_mult)
    show ?thesis
      using Suc.IH [OF k lo hi] s10 by (simp add: decimal_ge_10)
  qed
qed

lemma digits_value_replicate_zero:
  "digits_value 10 (replicate z (CHR ''0'')) acc = Some (acc * 10 ^ z)"
  by (induction z arbitrary: acc) (simp_all add: is_digit_zero)

text \<open>\<open>Number\<close> of digits followed by zeros, behind zeros that fill.\<close>

lemma js_Number_integer_form:
  "js_Number (replicate p (CHR ''0'') @ decimal a @ replicate z (CHR ''0'')) =
     round_double (of_nat (a * 10 ^ z))"
proof (rule js_Number_digits)
  show "list_all is_digit (replicate p (CHR ''0'') @ decimal a @ replicate z (CHR ''0''))"
    using all_digits_decimal [of a] by (auto simp: list_all_iff is_digit_zero)
  show "replicate p (CHR ''0'') @ decimal a @ replicate z (CHR ''0'') \<noteq> []"
    by (simp add: decimal_not_Nil)
  show "digits_value 10 (replicate p (CHR ''0'') @ decimal a @ replicate z (CHR ''0'')) 0 =
      Some (a * 10 ^ z)"
    by (simp add: digits_value_append digits_value_zeros digits_value_decimal
        digits_value_replicate_zero)
qed

text \<open>\<open>Number\<close> of digits with a decimal point between them.\<close>

lemma js_Number_point_form:
  assumes ip: "list_all is_digit ip" "ip \<noteq> []" and fp: "list_all is_digit fp" "fp \<noteq> []"
    and v: "digits_value 10 (ip @ fp) 0 = Some a"
  shows "js_Number (ip @ ''.'' @ fp) = round_double (of_nat a * pow10 (- int (length fp)))"
proof -
  define str where "str = ip @ ''.'' @ fp"
  obtain c r where ipc: "ip = c # r"
    using ip(2) by (cases ip) auto
  have c: "is_digit c" and r: "list_all is_digit r"
    using ip(1) by (simp_all add: ipc)
  have str: "str = c # (r @ ''.'' @ fp)" by (simp add: str_def ipc)
  have last: "is_digit (last str)"
    using fp by (simp add: str_def list_all_iff)
  have t: "trim str = str"
    using c last by (intro trim_id) (simp_all add: str is_digit_not_ws)
  have dot: "\<not> is_digit (CHR ''.'')" by (simp add: is_digit_def)
  have hd: "hd (r @ ''.'' @ fp) \<notin> {CHR ''x'', CHR ''X'', CHR ''o'', CHR ''O'', CHR ''b'', CHR ''B''}"
  proof (cases r)
    case Nil
    then show ?thesis by simp
  next
    case (Cons d r')
    with r have "is_digit d" by simp
    from is_digit_not_special [OF this] show ?thesis by (simp add: Cons)
  qed
  have tw: "takeWhile is_digit str = ip" "dropWhile is_digit str = ''.'' @ fp"
    using ip(1) dot by (simp_all add: str_def list_all_iff takeWhile_append2 dropWhile_append2)
  have twf: "takeWhile is_digit fp = fp" "dropWhile is_digit fp = []"
    using fp(1) by (simp_all add: list_all_iff)
  have inf: "str \<noteq> ''Infinity''"
    using c by (auto simp: str is_digit_def)
  have u: "unsigned_decimal str = round_double (of_nat a * pow10 (- int (length fp)))"
    using inf ip(2) v by (simp add: unsigned_decimal_def tw twf exponent_part_def Let_def)
  have "js_Number str = unsigned_decimal str"
    unfolding js_Number_def t Let_def
    using is_digit_not_special [OF c] hd by (simp add: str)
  with u show ?thesis by (simp add: str_def)
qed

lemma ilog10_range:
  assumes "1 \<le> x" "x < 2 ^ 54"
  shows "0 \<le> ilog10 x" and "ilog10 x \<le> 16"
proof -
  have xpos: "0 < x" using assms(1) by simp
  note b = ilog10_bounds [OF xpos]
  show "0 \<le> ilog10 x"
  proof (rule ccontr)
    assume "\<not> 0 \<le> ilog10 x"
    then have "pow10 (ilog10 x + 1) \<le> pow10 0" by (intro pow10_mono) simp
    with b(2) assms(1) show False by (simp add: pow10_0)
  qed
  show "ilog10 x \<le> 16"
  proof (rule ccontr)
    assume "\<not> ilog10 x \<le> 16"
    then have "pow10 17 \<le> pow10 (ilog10 x)" by (intro pow10_mono) simp
    with b(1) assms(2) show False by (simp add: pow10_numeral)
  qed
qed

text \<open>Reading back what \<open>String\<close> wrote, for a double from 1 to below \<open>2 ^ 54\<close>.\<close>

lemma js_Number_format_digits:
  assumes k: "1 \<le> k" and s: "10 ^ (k - 1) \<le> s" "s < 10 ^ k" and n: "1 \<le> n" "n \<le> 21"
  shows "js_Number (padStart 3 (CHR ''0'') (format_digits k s n)) =
     round_double (of_int s * pow10 (n - int k))"
proof -
  define a where "a = nat s"
  have spos: "0 < s"
    using s(1) by (smt (verit) zero_less_power)
  have sa: "s = int a" using spos by (simp add: a_def)
  have a: "10 ^ (k - 1) \<le> a" "a < 10 ^ k"
    using s unfolding sa by (simp_all flip: of_nat_power add: of_nat_le_iff of_nat_less_iff)
  have len: "length (decimal a) = k"
    using k a by (rule length_decimal)
  show ?thesis
  proof (cases "int k \<le> n")
    case True
    define z where "z = nat (n - int k)"
    have nz: "n - int k = int z" using True by (simp add: z_def)
    have "format_digits k s n = decimal a @ replicate z (CHR ''0'')"
      using n True by (simp add: format_digits_def a_def z_def Let_def)
    then have "js_Number (padStart 3 (CHR ''0'') (format_digits k s n)) =
        round_double (of_nat (a * 10 ^ z))"
      using js_Number_integer_form [of _ a z] by (simp add: padStart_def)
    also have "(of_nat (a * 10 ^ z) :: rat) = of_int s * pow10 (n - int k)"
      by (simp add: sa nz pow10_nat)
    finally show ?thesis .
  next
    case False
    define j where "j = nat n"
    have j: "0 < j" "j < k" "n = int j" using n False by (simp_all add: j_def)
    have f: "format_digits k s n = take j (decimal a) @ ''.'' @ drop j (decimal a)"
      using n False by (simp add: format_digits_def a_def j_def Let_def)
    have l3: "3 \<le> length (format_digits k s n)"
      unfolding f using j len by simp
    have dig: "list_all is_digit (take j (decimal a))" "list_all is_digit (drop j (decimal a))"
      using all_digits_decimal [of a]
      by (auto simp: list_all_iff dest: in_set_takeD in_set_dropD)
    have ne: "take j (decimal a) \<noteq> []" "drop j (decimal a) \<noteq> []"
      using j len by auto
    have v: "digits_value 10 (take j (decimal a) @ drop j (decimal a)) 0 = Some a"
      by (simp add: digits_value_decimal)
    have "js_Number (padStart 3 (CHR ''0'') (format_digits k s n)) =
        js_Number (take j (decimal a) @ ''.'' @ drop j (decimal a))"
      using l3 by (simp add: padStart_def f)
    also have "\<dots> = round_double (of_nat a * pow10 (- int (length (drop j (decimal a)))))"
      using dig(1) ne(1) dig(2) ne(2) v by (rule js_Number_point_form)
    also have "- int (length (drop j (decimal a))) = n - int k"
      using j len by simp
    finally show ?thesis by (simp add: sa)
  qed
qed

lemma js_Number_js_String:
  assumes M: "2 ^ 52 \<le> M" "M < 2 ^ 53" and e: "0 \<le> e" "e \<le> 53"
    and x: "x = of_int M * pow2 (e - 52)"
  shows "js_Number (padStart 3 (CHR ''0'') (js_String (Fin x))) = Fin x"
proof -
  have pe: "pow2 e = 2 ^ 52 * pow2 (e - 52)" by (rule pow2_52)
  have u: "0 < pow2 (e - 52)" by (rule pow2_pos)
  have "(of_int (2 ^ 52) :: rat) \<le> of_int M"
    using M(1) by (simp only: of_int_le_iff)
  then have "2 ^ 52 * pow2 (e - 52) \<le> x"
    unfolding x using u by (intro mult_right_mono) simp_all
  then have "pow2 e \<le> x" by (simp add: pe)
  moreover have "pow2 0 \<le> pow2 e" using e by (intro pow2_mono)
  ultimately have x1: "1 \<le> x" by (simp add: pow2_0)
  have "(of_int M :: rat) < of_int (2 ^ 53)"
    using M(2) by (simp only: of_int_less_iff)
  then have "x < 2 ^ 53 * pow2 (e - 52)"
    unfolding x using u by (intro mult_strict_right_mono) simp_all
  also have "\<dots> = pow2 (e + 1)" by (simp add: pow2_Suc pe)
  also have "\<dots> \<le> pow2 54" using e by (intro pow2_mono) simp
  finally have x54: "x < 2 ^ 54" by (simp add: pow2_numeral)
  have xpos: "0 < x" using x1 by simp
  show ?thesis
  proof (cases "is_int x \<and> x \<le> 2 ^ 53")
    case True
    define a where "a = nat \<lfloor>x\<rfloor>"
    have xa: "x = of_nat a"
      using True xpos is_int_of_nat [of x] by (simp add: a_def)
    have "(of_nat a :: rat) \<le> of_nat (2 ^ 53)" using True by (simp add: xa)
    then have a53: "a \<le> 2 ^ 53" by (simp only: of_nat_le_iff)
    have "js_String (Fin x) = decimal a"
      using True xpos by (simp add: positive_to_string_def a_def)
    then show ?thesis
      using js_Number_padded [OF a53] by (simp add: padStart_def xa)
  next
    case False
    have "candidates x 17 \<noteq> []"
      using M e x by (rule candidates_17)
    moreover have "17 \<in> set [1 ..< 18]" by simp
    ultimately obtain k s n where ks: "shortest x [1 ..< 18] = Some (k, s, n)"
        "k \<in> set [1 ..< 18]" "(s, n) \<in> set (candidates x k)"
      using shortest_Some [of 17 "[1 ..< 18]" x] by blast
    have k: "1 \<le> k" using ks(2) by simp
    note c = ks(3) [unfolded candidates_iff]
    note il = ilog10_range [OF x1 x54]
    have n: "1 \<le> n" "n \<le> 21" using c il by auto
    have "positive_to_string x = format_digits k s n"
      unfolding positive_to_string_def ks(1) using False by auto
    then have "js_String (Fin x) = format_digits k s n"
      using xpos by simp
    then show ?thesis
      using js_Number_format_digits [OF k _ _ n, of s] c by simp
  qed
qed

subsection \<open>The next number\<close>

lemma getNextEmployeeId_exceeds:
  assumes all: "\<forall>e\<in>set L. below_2_53 (suffix_number (employeeId e))"
  defines "m \<equiv> maxNumber_loop L (Fin 0)"
  shows "suffix_number (getNextEmployeeId L) = js_add m (Fin 1)"
    and "js_gt (js_add m (Fin 1)) m"
    and "\<forall>e\<in>set L. \<not> isNaN (suffix_number (employeeId e)) \<longrightarrow>
           js_gt (suffix_number (getNextEmployeeId L)) (suffix_number (employeeId e))"
proof -
  have g: "m = Fin 0 \<or> m \<in> (\<lambda>e. suffix_number (employeeId e)) ` set L"
      "\<not> isNaN m" "\<not> js_lt m (Fin 0)"
      "\<forall>e\<in>set L. \<not> js_gt (suffix_number (employeeId e)) m"
    using maxNumber_loop_greatest [of "Fin 0" L] by (simp_all add: m_def)
  have bm: "below_2_53 m"
    using g(1) all by (auto simp: below_2_53_def)
  obtain q where q: "m = Fin q" "0 \<le> q" "q < 2 ^ 53"
    using bm g(2,3) by (cases m) (auto simp: below_2_53_def)
  obtain M e where r: "round_double (q + 1) = Fin (of_int M * pow2 (e - 52))"
      "2 ^ 52 \<le> M" "M < 2 ^ 53" "0 \<le> e" "e \<le> 53" "q < of_int M * pow2 (e - 52)"
    using round_double_add_one [OF q(2,3)] by blast
  define x where "x = of_int M * pow2 (e - 52)"
  have add: "js_add m (Fin 1) = Fin x"
    using r(1) by (simp add: q(1) x_def)
  have rt: "js_Number (padStart 3 (CHR ''0'') (js_String (Fin x))) = Fin x"
    using r(2-5) x_def by (rule js_Number_js_String)
  have res: "getNextEmployeeId L = ''E'' @ padStart 3 (CHR ''0'') (js_String (Fin x))"
    unfolding getNextEmployeeId_def Let_def m_def [symmetric] add by (rule refl)
  show suf: "suffix_number (getNextEmployeeId L) = js_add m (Fin 1)"
    unfolding res add suffix_number_def using rt by simp
  show "js_gt (js_add m (Fin 1)) m"
    unfolding add unfolding q(1) js_gt_def x_def using r(6) by simp
  show "\<forall>e\<in>set L. \<not> isNaN (suffix_number (employeeId e)) \<longrightarrow>
           js_gt (suffix_number (getNextEmployeeId L)) (suffix_number (employeeId e))"
  proof (intro ballI impI)
    fix e assume e: "e \<in> set L" and nn: "\<not> isNaN (suffix_number (employeeId e))"
    have le: "\<not> js_gt (suffix_number (employeeId e)) (Fin q)"
      using g(4) e by (simp add: q(1))
    have b: "below_2_53 (suffix_number (employeeId e))"
      using all e by simp
    show "js_gt (suffix_number (getNextEmployeeId L)) (suffix_number (employeeId e))"
      unfolding suf add
      using le b nn r(6)
      by (cases "suffix_number (employeeId e)") (auto simp: js_gt_def below_2_53_def x_def)
  qed
qed

text \<open>The suffix of the id \<open>E0.5\<close>, and the number after it.\<close>

lemma round_double_half: "round_double (1 / 2) = Fin (1 / 2)"
  by code_simp

lemma round_double_three_halves: "round_double (3 / 2) = Fin (3 / 2)"
  by code_simp

lemma half_suffix: "suffix_number ''E0.5'' = Fin (1 / 2)"
  using round_double_half by (simp add: suffix_number_def js_Number_eval pow10_def)

text \<open>
  The claim C3 as stated fails on an employee whose id ends in \<open>Infinity\<close>: the number
  read from it is the infinite number, adding 1 leaves it as it is, and the id returned is
  the id that is already there, whose number does not exceed the one in the list.
\<close>

theorem getNextEmployeeId_not_greater:
  "getNextEmployeeId [\<lparr>employeeId = ''EInfinity'', name = ''Ann'', phone = ''555''\<rparr>] = ''EInfinity''
   \<and> \<not> isNaN (suffix_number ''EInfinity'')
   \<and> \<not> js_gt (suffix_number (getNextEmployeeId
            [\<lparr>employeeId = ''EInfinity'', name = ''Ann'', phone = ''555''\<rparr>]))
          (suffix_number ''EInfinity'')"
proof -
  have "getNextEmployeeId [\<lparr>employeeId = ''EInfinity'', name = ''Ann'', phone = ''555''\<rparr>] =
      ''EInfinity''"
    using infinity_suffix
    by (simp add: getNextEmployeeId_def suffix_number_def js_gt_def padStart_def)
  then show ?thesis
    by (simp add: infinity_suffix js_gt_def)
qed


text \<open>
  Claim C3, amended.  \<open>getNextEmployeeId\<close> returns a string for every list, \<open>E001\<close> for
  the empty one.  The string is \<open>E\<close> followed by \<open>String(m + 1)\<close>, filled with zeros
  from the left to three characters (\<open>m + 1\<close> in double arithmetic), where \<open>m\<close> is the
  greatest among 0 and the numbers that \<open>Number\<close> reads from the ids without their first
  character: \<open>m\<close> is a number (never \<open>NaN\<close>), it is 0 or one of these numbers, it is not
  negative, and none of these numbers is greater; an id from which no number is read is
  passed over.  When none of these numbers is infinite or \<open>2 ^ 53\<close> or more (whole or
  not), the number read from the new id is \<open>m + 1\<close>, which is greater than \<open>m\<close> and than
  the number of every id in the list that has one.  When each of them is absent, not
  positive, or a whole number below \<open>2 ^ 53\<close>, the new id is moreover \<open>E\<close> followed by the
  decimal writing of \<open>m + 1\<close>, filled with zeros to three digits.
\<close>

theorem getNextEmployeeId_next:
  "getNextEmployeeId [] = ''E001''
   \<and> (\<exists>m. \<not> isNaN m
          \<and> getNextEmployeeId L = ''E'' @ padStart 3 (CHR ''0'') (js_String (js_add m (Fin 1)))
          \<and> (m = Fin 0 \<or> m \<in> (\<lambda>e. suffix_number (employeeId e)) ` set L)
          \<and> \<not> js_lt m (Fin 0)
          \<and> (\<forall>e\<in>set L. \<not> js_gt (suffix_number (employeeId e)) m)
          \<and> ((\<forall>e\<in>set L. below_2_53 (suffix_number (employeeId e))) \<longrightarrow>
                suffix_number (getNextEmployeeId L) = js_add m (Fin 1)
                \<and> js_gt (js_add m (Fin 1)) m
                \<and> (\<forall>e\<in>set L. \<not> isNaN (suffix_number (employeeId e)) \<longrightarrow>
                      js_gt (suffix_number (getNextEmployeeId L)) (suffix_number (employeeId e)))))
   \<and> ((\<forall>e\<in>set L. safe_suffix (suffix_number (employeeId e))) \<longrightarrow>
        getNextEmployeeId L = ''E'' @ padStart 3 (CHR ''0'') (decimal (max_suffix L + 1))
        \<and> suffix_number (getNextEmployeeId L) = Fin (of_nat (max_suffix L + 1))
        \<and> (\<forall>e\<in>set L. \<not> isNaN (suffix_number (employeeId e)) \<longrightarrow>
              js_gt (suffix_number (getNextEmployeeId L)) (suffix_number (employeeId e))))"
proof -
  have empty: "getNextEmployeeId [] = ''E001''"
  proof -
    have "js_add (Fin 0) (Fin 1) = Fin (of_nat 1)"
      using js_add_one_of_nat [of 0] by simp
    moreover have "js_String (Fin (of_nat 1)) = decimal 1"
      by (rule js_String_of_nat) simp_all
    ultimately show ?thesis
      by (simp add: getNextEmployeeId_def padStart_def decimal_eval eval_nat_numeral)
  qed
  have general: "\<exists>m. \<not> isNaN m
          \<and> getNextEmployeeId L = ''E'' @ padStart 3 (CHR ''0'') (js_String (js_add m (Fin 1)))
          \<and> (m = Fin 0 \<or> m \<in> (\<lambda>e. suffix_number (employeeId e)) ` set L)
          \<and> \<not> js_lt m (Fin 0)
          \<and> (\<forall>e\<in>set L. \<not> js_gt (suffix_number (employeeId e)) m)
          \<and> ((\<forall>e\<in>set L. below_2_53 (suffix_number (employeeId e))) \<longrightarrow>
                suffix_number (getNextEmployeeId L) = js_add m (Fin 1)
                \<and> js_gt (js_add m (Fin 1)) m
                \<and> (\<forall>e\<in>set L. \<not> isNaN (suffix_number (employeeId e)) \<longrightarrow>
                      js_gt (suffix_number (getNextEmployeeId L)) (suffix_number (employeeId e))))"
  proof (intro exI [of _ "maxNumber_loop L (Fin 0)"] conjI impI)
    note g = maxNumber_loop_greatest [of "Fin 0" L]
    show "\<not> isNaN (maxNumber_loop L (Fin 0))"
      using g by simp
    show "getNextEmployeeId L =
        ''E'' @ padStart 3 (CHR ''0'') (js_String (js_add (maxNumber_loop L (Fin 0)) (Fin 1)))"
      by (simp add: getNextEmployeeId_def)
    show "maxNumber_loop L (Fin 0) = Fin 0
        \<or> maxNumber_loop L (Fin 0) \<in> (\<lambda>e. suffix_number (employeeId e)) ` set L"
      using g by simp
    show "\<not> js_lt (maxNumber_loop L (Fin 0)) (Fin 0)"
      using g by simp
    show "\<forall>e\<in>set L. \<not> js_gt (suffix_number (employeeId e)) (maxNumber_loop L (Fin 0))"
      using g by simp
  next
    assume b: "\<forall>e\<in>set L. below_2_53 (suffix_number (employeeId e))"
    show "suffix_number (getNextEmployeeId L) = js_add (maxNumber_loop L (Fin 0)) (Fin 1)"
      using b by (rule getNextEmployeeId_exceeds(1))
    show "js_gt (js_add (maxNumber_loop L (Fin 0)) (Fin 1)) (maxNumber_loop L (Fin 0))"
      using b by (rule getNextEmployeeId_exceeds(2))
    show "\<forall>e\<in>set L. \<not> isNaN (suffix_number (employeeId e)) \<longrightarrow>
        js_gt (suffix_number (getNextEmployeeId L)) (suffix_number (employeeId e))"
      using b by (rule getNextEmployeeId_exceeds(3))
  qed
  have safe: "getNextEmployeeId L = ''E'' @ padStart 3 (CHR ''0'') (decimal (max_suffix L + 1))
        \<and> suffix_number (getNextEmployeeId L) = Fin (of_nat (max_suffix L + 1))
        \<and> (\<forall>e\<in>set L. \<not> isNaN (suffix_number (employeeId e)) \<longrightarrow>
              js_gt (suffix_number (getNextEmployeeId L)) (suffix_number (employeeId e)))"
    if all: "\<forall>e\<in>set L. safe_suffix (suffix_number (employeeId e))"
  proof -
    define M where "M = max_suffix L"
    have M: "M < 2 ^ 53"
      unfolding M_def using all by (rule max_suffix_bound)
    then have M1: "M + 1 \<le> 2 ^ 53" by simp
    have loop: "maxNumber_loop L (Fin 0) = Fin (of_nat M)"
      unfolding M_def using all by (rule maxNumber_loop_max_suffix)
    have str: "js_String (js_add (Fin (of_nat M)) (Fin 1)) = decimal (M + 1)"
      using js_add_one_of_nat [OF M] js_String_of_nat [OF _ M1] by simp
    have res: "getNextEmployeeId L = ''E'' @ padStart 3 (CHR ''0'') (decimal (M + 1))"
      unfolding getNextEmployeeId_def Let_def loop str by (rule refl)
    have suf: "suffix_number (getNextEmployeeId L) = Fin (of_nat (M + 1))"
      unfolding res suffix_number_def padStart_def using js_Number_padded [OF M1] by simp
    have gt: "js_gt (Fin (of_nat (M + 1))) (suffix_number (employeeId e))"
      if e: "e \<in> set L" and nn: "\<not> isNaN (suffix_number (employeeId e))" for e
    proof (cases "suffix_number (employeeId e)")
      case (Fin q)
      have s: "safe_suffix (Fin q)"
        using all e Fin by auto
      have c: "counted (Fin q) \<le> M"
        using counted_le_max_suffix [OF e] by (simp add: M_def Fin)
      have "q < of_nat (M + 1)"
      proof (cases "q \<le> 0")
        case True
        have "(0::rat) < of_nat (M + 1)" by simp
        with True show ?thesis by (rule le_less_trans)
      next
        case False
        then have "is_int q" using s by (simp add: safe_suffix_def)
        then have q: "q = of_nat (nat \<lfloor>q\<rfloor>)"
          using False is_int_of_nat [of q] by simp
        have "nat \<lfloor>q\<rfloor> < M + 1"
          using c by (simp add: counted_def)
        then have "(of_nat (nat \<lfloor>q\<rfloor>) :: rat) < of_nat (M + 1)"
          by (simp only: of_nat_less_iff)
        with q show ?thesis by simp
      qed
      then show ?thesis
        by (simp add: js_gt_def Fin)
    next
      case PosInf
      then show ?thesis
        using all e by (auto simp: safe_suffix_def)
    qed (use nn in \<open>simp_all add: js_gt_def\<close>)
    show ?thesis
      using res suf gt by (simp add: M_def)
  qed
  show ?thesis
    using empty general safe by blast
qed

theorem getNextEmployeeId_next_witness:
  "list_all (\<lambda>e. safe_suffix (suffix_number (employeeId e))) staff
   \<and> list_all (\<lambda>e. below_2_53 (suffix_number (employeeId e))) staff
   \<and> max_suffix staff = 1234
   \<and> getNextEmployeeId staff = ''E1235''
   \<and> suffix_number (getNextEmployeeId staff) = Fin 1235
   \<and> list_all (\<lambda>e. below_2_53 (suffix_number (employeeId e))) staff_half
   \<and> map (\<lambda>e. suffix_number (employeeId e)) staff_half = [Fin (1 / 2)]
   \<and> suffix_number (getNextEmployeeId staff_half) = Fin (3 / 2)
   \<and> js_gt (suffix_number (getNextEmployeeId staff_half)) (Fin (1 / 2))"
proof -
  have s: "\<forall>e\<in>set staff. safe_suffix (suffix_number (employeeId e))"
    by (simp add: staff_def staff_suffixes safe_suffix_def is_int_def)
  have b: "\<forall>e\<in>set staff. below_2_53 (suffix_number (employeeId e))"
    by (simp add: staff_def staff_suffixes below_2_53_def)
  have m: "max_suffix staff = 1234"
    by (simp add: max_suffix_def staff_def staff_suffixes counted_def)
  have d: "decimal 1235 = ''1235''"
    by (simp add: decimal_eval)
  from getNextEmployeeId_next [of staff] s m d
  have first: "getNextEmployeeId staff = ''E1235''
      \<and> suffix_number (getNextEmployeeId staff) = Fin 1235"
    by (simp add: padStart_def staff_suffixes)
  have h: "\<forall>e\<in>set staff_half. below_2_53 (suffix_number (employeeId e))"
    by (simp add: staff_half_def half_suffix below_2_53_def)
  from getNextEmployeeId_next [of staff_half] h
  obtain n where n: "n = Fin 0 \<or> n \<in> (\<lambda>e. suffix_number (employeeId e)) ` set staff_half"
      "\<forall>e\<in>set staff_half. \<not> js_gt (suffix_number (employeeId e)) n"
      "suffix_number (getNextEmployeeId staff_half) = js_add n (Fin 1)"
    by blast
  have "n = Fin (1 / 2)"
    using n(1,2) by (auto simp: staff_half_def half_suffix js_gt_def)
  then have second: "suffix_number (getNextEmployeeId staff_half) = Fin (3 / 2)"
    using n(3) round_double_three_halves by simp
  have hm: "map (\<lambda>e. suffix_number (employeeId e)) staff_half = [Fin (1 / 2)]"
    by (simp add: staff_half_def half_suffix)
  have gt: "js_gt (suffix_number (getNextEmployeeId staff_half)) (Fin (1 / 2))"
    unfolding second by (simp add: js_gt_def)
  note f1 = first [THEN conjunct1] and f2 = first [THEN conjunct2]
  show ?thesis
    unfolding list_all_iff
    by (intro conjI) (rule s b m f1 f2 h hm second gt)+
qed

lemma round_double_2_53_plus_1: "round_double 9007199254740993 = Fin 9007199254740992"
  by code_simp

lemma getNextEmployeeId_2_53:
  "getNextEmployeeId [\<lparr>employeeId = ''E9007199254740992'', name = ''Ann'', phone = ''555''\<rparr>] =
     ''E9007199254740992''"
proof -
  have n: "js_Number ''9007199254740992'' = Fin 9007199254740992"
    by (simp add: js_Number_eval)
  have s: "js_String (Fin (of_nat 9007199254740992)) = decimal 9007199254740992"
    by (rule js_String_of_nat) simp_all
  have d: "decimal 9007199254740992 = ''9007199254740992''"
    by (simp add: decimal_eval)
  show ?thesis
    using s by (simp add: getNextEmployeeId_def n js_gt_def round_double_2_53_plus_1 d padStart_def)
qed

section \<open>Shift duration\<close>

lemma length_2_iff: "(length xs = 2) = (\<exists>a b. xs = [a, b])"
  by (cases xs; cases "tl xs"; cases "tl (tl xs)") auto

lemma in_range_iff:
  "(\<not> isNaN x \<and> \<not> js_lt x (Fin 0) \<and> \<not> js_gt x (Fin hi)) = (\<exists>q. x = Fin q \<and> 0 \<le> q \<and> q \<le> hi)"
  by (cases x) (auto simp: js_gt_def)

lemma hhmm_Some_iff:
  "(hhmm str = Some (hh, mm)) =
     (\<exists>h m. split_on (CHR '':'') (trim str) = [h, m] \<and> js_Number h = Fin hh \<and> js_Number m = Fin mm
        \<and> 0 \<le> hh \<and> hh \<le> 23 \<and> 0 \<le> mm \<and> mm \<le> 59)"
  by (auto simp: hhmm_def split: list.splits jsnum.splits)

lemma computeShiftDuration_invalid:
  assumes "hhmm a = None \<or> hhmm b = None"
  shows "computeShiftDuration a b = Fin 0"
proof (cases "\<exists>h1 m1 h2 m2. split_on (CHR '':'') (trim a) = [h1, m1] \<and>
    split_on (CHR '':'') (trim b) = [h2, m2]")
  case False
  then have "length (split_on (CHR '':'') (trim a)) \<noteq> 2 \<or> length (split_on (CHR '':'') (trim b)) \<noteq> 2"
    unfolding length_2_iff by blast
  then show ?thesis
    by (auto simp: computeShiftDuration_def Let_def)
next
  case True
  then obtain h1 m1 h2 m2 where sp: "split_on (CHR '':'') (trim a) = [h1, m1]"
      "split_on (CHR '':'') (trim b) = [h2, m2]"
    by blast
  define x1 x2 x3 x4 where x: "x1 = js_Number h1" "x2 = js_Number m1"
    "x3 = js_Number h2" "x4 = js_Number m2"
  have "\<not> ((\<exists>q. x1 = Fin q \<and> 0 \<le> q \<and> q \<le> 23) \<and> (\<exists>q. x2 = Fin q \<and> 0 \<le> q \<and> q \<le> 59))
      \<or> \<not> ((\<exists>q. x3 = Fin q \<and> 0 \<le> q \<and> q \<le> 23) \<and> (\<exists>q. x4 = Fin q \<and> 0 \<le> q \<and> q \<le> 59))"
    using assms by (auto simp: hhmm_def sp x split: jsnum.splits)
  then have bad: "(isNaN x1 \<or> isNaN x2 \<or> isNaN x3 \<or> isNaN x4)
      \<or> (js_lt x1 (Fin 0) \<or> js_gt x1 (Fin 23) \<or> js_lt x3 (Fin 0) \<or> js_gt x3 (Fin 23) \<or>
          js_lt x2 (Fin 0) \<or> js_gt x2 (Fin 59) \<or> js_lt x4 (Fin 0) \<or> js_gt x4 (Fin 59))"
    unfolding in_range_iff [symmetric] by blast
  show ?thesis
    unfolding computeShiftDuration_def Let_def sp
    using bad by (auto simp: x simp del: js_lt.simps isNaN.simps)
qed

lemma computeShiftDuration_valid:
  assumes "hhmm a = Some s" "hhmm b = Some e"
  shows "computeShiftDuration a b =
     js_div (js_sub (if js_lt (minutes e) (minutes s) then js_add (minutes e) (Fin 1440)
                     else minutes e) (minutes s)) (Fin 60)"
proof -
  obtain sh sm eh em where s: "s = (sh, sm)" and e: "e = (eh, em)"
    by (cases s; cases e) auto
  from assms(1) obtain h1 m1 where 1: "split_on (CHR '':'') (trim a) = [h1, m1]"
      "js_Number h1 = Fin sh" "js_Number m1 = Fin sm" "0 \<le> sh" "sh \<le> 23" "0 \<le> sm" "sm \<le> 59"
    unfolding s hhmm_Some_iff by blast
  from assms(2) obtain h2 m2 where 2: "split_on (CHR '':'') (trim b) = [h2, m2]"
      "js_Number h2 = Fin eh" "js_Number m2 = Fin em" "0 \<le> eh" "eh \<le> 23" "0 \<le> em" "em \<le> 59"
    unfolding e hhmm_Some_iff by blast
  have c: "js_mul (Fin 24) (Fin 60) = Fin 1440"
    using round_double_numeral [of "num.Bit0 (num.Bit0 (num.Bit0 (num.Bit0 (num.Bit0 (num.Bit1 (num.Bit0 (num.Bit1 (num.Bit1 (num.Bit0 num.One)))))))))"]
    by simp
  show ?thesis
    unfolding computeShiftDuration_def Let_def s e minutes_def c
    using 1(4-7) 2(4-7)
    by (simp add: 1(1-3) 2(1-3) js_gt_def not_less del: js_add.simps js_mul.simps js_div.simps)
qed


lemma round_double_whole:
  assumes "is_int q" "0 \<le> q" "q \<le> 2 ^ 53"
  shows "round_double q = Fin q"
proof -
  have q: "q = of_nat (nat \<lfloor>q\<rfloor>)"
    using assms(1,2) by (rule is_int_of_nat)
  have "(of_nat (nat \<lfloor>q\<rfloor>) :: rat) \<le> of_nat (2 ^ 53)"
    using assms(3) q by simp
  then have "nat \<lfloor>q\<rfloor> \<le> 2 ^ 53"
    by (simp only: of_nat_le_iff)
  then have "round_double (of_nat (nat \<lfloor>q\<rfloor>)) = Fin (of_nat (nat \<lfloor>q\<rfloor>))"
    by (rule round_double_of_nat)
  with q show ?thesis by simp
qed

lemma is_int_arith:
  "is_int a \<Longrightarrow> is_int b \<Longrightarrow> is_int (a + b)"
  "is_int a \<Longrightarrow> is_int b \<Longrightarrow> is_int (a - b)"
  "is_int a \<Longrightarrow> is_int b \<Longrightarrow> is_int (a * b)"
  "is_int (numeral k)"
  by (auto simp: is_int_def) (metis of_int_add of_int_diff of_int_mult floor_of_int)+

lemma minutes_whole:
  assumes "is_int h" "is_int m" "0 \<le> h" "h \<le> 23" "0 \<le> m" "m \<le> 59"
  shows "minutes (h, m) = Fin (60 * h + m)"
proof -
  have "h * 60 \<le> 23 * 60"
    using assms(4) by simp
  then have 1: "round_double (h * 60) = Fin (h * 60)"
    using assms by (intro round_double_whole) (simp_all add: is_int_arith)
  have "h * 60 + m \<le> 23 * 60 + 59"
    using assms(4,6) by simp
  then have 2: "round_double (h * 60 + m) = Fin (h * 60 + m)"
    using assms by (intro round_double_whole) (simp_all add: is_int_arith)
  show ?thesis
    by (simp add: minutes_def 1 2 mult.commute)
qed

lemma round_double_halves: "round_double (5 / 2) = Fin (5 / 2)" "round_double (27 / 2) = Fin (27 / 2)"
  by code_simp+

lemmas computeShiftDuration_eval =
  computeShiftDuration_def Let_def js_Number_eval js_gt_def js_sub_def round_double_halves

text \<open>
  The claim C6 as stated fails on \<open>":"\<close>: its two components are empty strings, no
  numbers in the usual sense, but \<open>Number("")\<close> is \<open>0\<close>, so the string counts as
  \<open>00:00\<close> and the duration up to \<open>13:30\<close> is 13.5 hours, not 0.
\<close>

theorem computeShiftDuration_empty_components:
  "split_on (CHR '':'') (trim '':'') = [[], []]
   \<and> computeShiftDuration '':'' ''13:30'' = Fin (27 / 2)
   \<and> computeShiftDuration '':'' ''13:30'' \<noteq> Fin 0"
  by (simp add: computeShiftDuration_eval)

text \<open>
  Claim C6, amended.  \<open>computeShiftDuration\<close> returns \<open>0\<close> when one of the two strings,
  after trimming, does not split at the colon into exactly two components for which
  \<open>Number\<close> yields a number (anything but \<open>NaN\<close>; the empty or blank component is
  \<open>0\<close>) with the first from 0 to 23 and the second from 0 to 59.  Otherwise both are
  converted to minutes since midnight, 1440 is added to the end when it is less than the
  start, and the difference divided by 60 is returned, each step in double arithmetic;
  for whole-number components this is \<open>(end - start) / 60\<close> rounded to a double.  The
  durations of 11:00 to 13:30, of 23:00 to 01:00, of "bad" to 13:30 and of 25:00 to 01:00
  are 2.5, 2, 0 and 0.
\<close>

theorem computeShiftDuration_hours:
  "computeShiftDuration a b =
     (case (hhmm a, hhmm b) of
        (Some s, Some e) \<Rightarrow>
          js_div (js_sub (if js_lt (minutes e) (minutes s) then js_add (minutes e) (Fin 1440)
                          else minutes e) (minutes s)) (Fin 60)
      | _ \<Rightarrow> Fin 0)
   \<and> (hhmm a = Some (sh, sm) \<and> hhmm b = Some (eh, em)
        \<and> is_int sh \<and> is_int sm \<and> is_int eh \<and> is_int em \<longrightarrow>
        computeShiftDuration a b =
          round_double (((if 60 * eh + em < 60 * sh + sm then 60 * eh + em + 1440
                          else 60 * eh + em) - (60 * sh + sm)) / 60))
   \<and> computeShiftDuration ''11:00'' ''13:30'' = Fin (5 / 2)
   \<and> computeShiftDuration ''23:00'' ''01:00'' = Fin 2
   \<and> computeShiftDuration ''bad'' ''13:30'' = Fin 0
   \<and> computeShiftDuration ''25:00'' ''01:00'' = Fin 0"
proof -
  have general: "computeShiftDuration a b =
     (case (hhmm a, hhmm b) of
        (Some s, Some e) \<Rightarrow>
          js_div (js_sub (if js_lt (minutes e) (minutes s) then js_add (minutes e) (Fin 1440)
                          else minutes e) (minutes s)) (Fin 60)
      | _ \<Rightarrow> Fin 0)"
  proof (cases "hhmm a = None \<or> hhmm b = None")
    case True
    then show ?thesis
      using computeShiftDuration_invalid [OF True] by (auto split: option.splits)
  next
    case False
    then obtain s e where "hhmm a = Some s" "hhmm b = Some e"
      by auto
    then show ?thesis
      using computeShiftDuration_valid [of a s b e] by simp
  qed
  have whole: "computeShiftDuration a b =
          round_double (((if 60 * eh + em < 60 * sh + sm then 60 * eh + em + 1440
                          else 60 * eh + em) - (60 * sh + sm)) / 60)"
    if h: "hhmm a = Some (sh, sm)" "hhmm b = Some (eh, em)"
      and i: "is_int sh" "is_int sm" "is_int eh" "is_int em"
  proof -
    have rs: "0 \<le> sh" "sh \<le> 23" "0 \<le> sm" "sm \<le> 59"
      using h(1) unfolding hhmm_Some_iff by auto
    have re: "0 \<le> eh" "eh \<le> 23" "0 \<le> em" "em \<le> 59"
      using h(2) unfolding hhmm_Some_iff by auto
    define S where "S = 60 * sh + sm"
    define E where "E = 60 * eh + em"
    have S: "minutes (sh, sm) = Fin S" "is_int S" "0 \<le> S" "S \<le> 1439"
      using minutes_whole [OF i(1,2) rs] i(1,2) rs by (simp_all add: S_def is_int_arith)
    have E: "minutes (eh, em) = Fin E" "is_int E" "0 \<le> E" "E \<le> 1439"
      using minutes_whole [OF i(3,4) re] i(3,4) re by (simp_all add: E_def is_int_arith)
    define E' where "E' = (if E < S then E + 1440 else E)"
    have E': "is_int E'" "0 \<le> E'" "E' \<le> 2879" "S \<le> E'"
      using E S by (auto simp: E'_def is_int_arith)
    have "round_double (E + 1440) = Fin (E + 1440)"
      using E by (intro round_double_whole) (simp_all add: is_int_arith)
    then have roll: "(if js_lt (Fin E) (Fin S) then js_add (Fin E) (Fin 1440) else Fin E) = Fin E'"
      by (simp add: E'_def)
    have "round_double (E' - S) = Fin (E' - S)"
      using E' S by (intro round_double_whole) (simp_all add: is_int_arith)
    then have diff: "js_sub (Fin E') (Fin S) = Fin (E' - S)"
      by (simp add: js_sub_def)
    have "computeShiftDuration a b = js_div (Fin (E' - S)) (Fin 60)"
      unfolding general h by (simp only: option.case prod.case S(1) E(1) roll diff)
    then show ?thesis
      by (simp add: E'_def S_def E_def)
  qed
  have examples: "computeShiftDuration ''11:00'' ''13:30'' = Fin (5 / 2)"
    "computeShiftDuration ''23:00'' ''01:00'' = Fin 2"
    "computeShiftDuration ''bad'' ''13:30'' = Fin 0"
    "computeShiftDuration ''25:00'' ''01:00'' = Fin 0"
    by (simp_all add: computeShiftDuration_eval)
  show ?thesis
    using general whole examples by blast
qed

theorem computeShiftDuration_hours_witness:
  "hhmm ''11:00'' = Some (11, 0) \<and> hhmm ''13:30'' = Some (13, 30) \<and> hhmm ''bad'' = None
   \<and> is_int 11 \<and> is_int 0 \<and> is_int 13 \<and> is_int 30
   \<and> computeShiftDuration ''11:00'' ''13:30'' = round_double (5 / 2)"
proof -
  have h: "hhmm ''11:00'' = Some (11, 0)" "hhmm ''13:30'' = Some (13, 30)" "hhmm ''bad'' = None"
    by (simp_all add: hhmm_def js_Number_eval)
  have i: "is_int 11" "is_int 0" "is_int 13" "is_int 30"
    by (simp_all add: is_int_def)
  from computeShiftDuration_hours [of "''11:00''" "''13:30''" 11 0 13 30, THEN conjunct2,
      THEN conjunct1] h i
  show ?thesis by simp
qed

end
